theory Spec2Isabelle
  imports Complex_Main "HOL-Library.Word" "HOL-Library.Log_Nat"
begin

section \<open>The float64 arithmetic used by the load ratio\<close>

text \<open>
  \<open>Server.Ratio\<close> computes in Go's \<open>float64\<close>. Every finite float64 is a rational
  number, so a float64 value is modelled by the rational it denotes, and an operation by
  the exact operation followed by \<open>f64\<close>, the IEEE 754 rounding to the nearest number
  with a 53-bit significand, ties to the even significand. The exponent is not bounded
  in the model: the values that occur here (conversions of 32- and 64-bit integers and
  one quotient of them) have magnitude 0 or between \<open>2^-64\<close> and \<open>2^64\<close>, far inside
  the normal range of float64, so neither overflow, underflow, a subnormal nor a NaN
  can arise (the division is guarded by \<open>w == 0\<close>).
\<close>

definition round_even :: "rat \<Rightarrow> int" where
  "round_even x =
     (let f = \<lfloor>x\<rfloor>; r = x - of_int f
      in if r < 1 / 2 then f
         else if 1 / 2 < r then f + 1
         else if even f then f else f + 1)"

text \<open>For \<open>x > 0\<close>, \<open>ilog2 x\<close> is the exponent \<open>k\<close> with \<open>2^k \<le> x < 2^(k+1)\<close>.\<close>

definition ilog2 :: "rat \<Rightarrow> int" where
  "ilog2 x =
     (let (p, q) = quotient_of x; k = bitlen p - bitlen q
      in if 2 powi k \<le> x then k else k - 1)"

definition f64 :: "rat \<Rightarrow> rat" where
  "f64 x =
     (if x = 0 then 0
      else let e = ilog2 \<bar>x\<bar> - 52
           in sgn x * (of_int (round_even (\<bar>x\<bar> / 2 powi e)) * 2 powi e))"

section \<open>Servers\<close>

text \<open>
  The struct \<open>Server\<close>. \<open>Weight\<close> is a Go \<open>int\<close> (64 bits), \<open>ActiveConnections\<close> an
  \<open>atomic.Int32\<close>, \<open>LastCheckTime\<close> an \<open>atomic.Int64\<close>: these three are read as
  two's complement with \<open>sint\<close>. \<open>RequestCount\<close> is an \<open>atomic.Uint64\<close> and
  \<open>FailureCount\<close> an \<open>atomic.Uint32\<close>. \<open>URL\<close> keeps the address string the server
  was made from. The field \<open>ReverseProxy\<close> is the forwarder: it is not part of the
  state, its behaviour is a parameter of \<open>ServeHTTP\<close> below.
\<close>

record Server =
  URL :: string
  Weight :: "64 word"
  ActiveConnections :: "32 word"
  RequestCount :: "64 word"
  IsHealthy :: bool
  FailureCount :: "32 word"
  LastCheckTime :: "64 word"

definition Ratio :: "Server \<Rightarrow> rat" where
  "Ratio s =
     (if \<not> IsHealthy s then 10 ^ 18
      else let conn = f64 (of_int (sint (ActiveConnections s)));
               w = f64 (of_int (sint (Weight s)))
           in if w = 0 then 10 ^ 18 else f64 (conn / w))"

text \<open>
  The outcome of the probe request \<open>client.Get(url + "/health")\<close>: a transport error
  (which includes the 3 second timeout) or a response with a status code.
\<close>

datatype Probe = TransportError | Status nat

datatype HealthError = CheckFailed | BadStatus nat

text \<open>\<open>HealthCheck\<close> with the probe's outcome and the clock reading \<open>time.Now().Unix()\<close>.\<close>

definition HealthCheck :: "Probe \<Rightarrow> 64 word \<Rightarrow> Server \<Rightarrow> HealthError option \<times> Server" where
  "HealthCheck resp now s0 =
     (let s = s0\<lparr>LastCheckTime := now\<rparr>
      in case resp of
           TransportError \<Rightarrow> (Some CheckFailed, s\<lparr>FailureCount := FailureCount s + 1\<rparr>)
         | Status code \<Rightarrow>
             if code \<noteq> 200 then (Some (BadStatus code), s\<lparr>FailureCount := FailureCount s + 1\<rparr>)
             else (None, s\<lparr>FailureCount := 0\<rparr>))"

text \<open>
  \<open>NewServer\<close>. Go's \<open>url.Parse\<close> is a library function: whether it accepts the
  address is the parameter \<open>urlParse\<close>. \<open>now\<close> is the clock reading.
\<close>

datatype ConfigError = InvalidFormat string | InvalidWeight string | URLError string | NoServers

definition NewServer :: "(string \<Rightarrow> bool) \<Rightarrow> 64 word \<Rightarrow> string \<Rightarrow> 64 word \<Rightarrow> ConfigError + Server" where
  "NewServer urlParse now rawURL weight =
     (if \<not> urlParse rawURL then Inl (URLError rawURL)
      else Inr \<lparr>URL = rawURL, Weight = weight, ActiveConnections = 0, RequestCount = 0,
                IsHealthy = True, FailureCount = 0, LastCheckTime = now\<rparr>)"

section \<open>The balancer\<close>

text \<open>
  The struct \<open>WeightedLeastConnection\<close> without its two locks. The pool is a slice of
  pointers to servers; it is modelled as the list of the servers' states, and a pointer
  into the pool as the position of the server in it. The pool built by \<open>main\<close> holds one
  fresh server for each configuration entry, so no two positions share a server.
\<close>

record WeightedLeastConnection =
  servers :: "Server list"
  totalRequests :: "64 word"

definition NewWeightedLeastConnection :: "Server list \<Rightarrow> WeightedLeastConnection" where
  "NewWeightedLeastConnection srvs = \<lparr>servers = srvs, totalRequests = 0\<rparr>"

text \<open>The loop of \<open>NextServer\<close>: \<open>i\<close> is the position of the server at hand.\<close>

fun NextServer_loop :: "Server list \<Rightarrow> nat \<Rightarrow> nat option \<Rightarrow> rat \<Rightarrow> nat option" where
  "NextServer_loop [] i bestServer bestRatio = bestServer"
| "NextServer_loop (server # rest) i bestServer bestRatio =
     (let ratio = Ratio server
      in if ratio < bestRatio then NextServer_loop rest (Suc i) (Some i) ratio
         else NextServer_loop rest (Suc i) bestServer bestRatio)"

definition NextServer :: "WeightedLeastConnection \<Rightarrow> nat option" where
  "NextServer wlc =
     (if length (servers wlc) = 0 then None
      else NextServer_loop (servers wlc) 0 None (10 ^ 18))"

text \<open>
  One iteration of the loop of \<open>performHealthChecks\<close>: the probe, then the store of the
  health flag. The log line on a change of the flag is not modelled.
\<close>

definition check_server :: "Probe \<times> 64 word \<Rightarrow> Server \<Rightarrow> Server" where
  "check_server env s =
     (let (err, s') = HealthCheck (fst env) (snd env) s;
          isHealthy = (err = None)
      in s'\<lparr>IsHealthy := isHealthy\<rparr>)"

text \<open>\<open>env i\<close> is the probe outcome and the clock reading for the server at position \<open>i\<close>.\<close>

fun performHealthChecks_loop :: "(nat \<Rightarrow> Probe \<times> 64 word) \<Rightarrow> nat \<Rightarrow> Server list \<Rightarrow> Server list" where
  "performHealthChecks_loop env i [] = []"
| "performHealthChecks_loop env i (server # rest) =
     check_server (env i) server # performHealthChecks_loop env (Suc i) rest"

definition performHealthChecks ::
  "(nat \<Rightarrow> Probe \<times> 64 word) \<Rightarrow> WeightedLeastConnection \<Rightarrow> WeightedLeastConnection" where
  "performHealthChecks env wlc = wlc\<lparr>servers := performHealthChecks_loop env 0 (servers wlc)\<rparr>"

subsection \<open>Serving a request\<close>

text \<open>
  What \<open>server.ReverseProxy.ServeHTTP\<close> does with the request: it writes a response
  with some status (502 from the error handler when the backend cannot be reached), or
  it panics.
\<close>

datatype Forward = Forwarded nat | ForwardPanic

record BackendLine =
  line_host :: string
  line_healthy :: bool
  line_weight :: int
  line_active :: int
  line_total :: nat
  line_failures :: nat
  line_last_check :: int
  line_ratio :: rat

text \<open>
  What the caller of \<open>ServeHTTP\<close> gets: a plain-text response, the metrics report (its
  numbers, not its text), the response relayed from a backend, or the panic of the proxy.
\<close>

datatype Reply =
    Text nat string
  | Metrics nat nat "BackendLine list"
  | Proxied nat
  | Panicked

definition handleHealthEndpoint :: "WeightedLeastConnection \<Rightarrow> Reply" where
  "handleHealthEndpoint wlc =
     (let healthyCount = length (filter IsHealthy (servers wlc))
      in if healthyCount = 0 then Text 503 ''UNHEALTHY: No healthy backends''
         else Text 200 ''OK'')"

definition backend_line :: "Server \<Rightarrow> BackendLine" where
  "backend_line server =
     \<lparr>line_host = URL server, line_healthy = IsHealthy server,
      line_weight = sint (Weight server), line_active = sint (ActiveConnections server),
      line_total = unat (RequestCount server), line_failures = unat (FailureCount server),
      line_last_check = sint (LastCheckTime server), line_ratio = Ratio server\<rparr>"

definition handleMetricsEndpoint :: "WeightedLeastConnection \<Rightarrow> Reply" where
  "handleMetricsEndpoint wlc =
     (let totalReqs = totalRequests wlc
      in Metrics (unat totalReqs) (length (servers wlc)) (map backend_line (servers wlc)))"

text \<open>
  The two atomic additions on the server and the increment of the pool counter (under
  its lock) that precede the forward.
\<close>

definition dispatch_begin :: "nat \<Rightarrow> WeightedLeastConnection \<Rightarrow> WeightedLeastConnection" where
  "dispatch_begin i wlc =
     (let server = servers wlc ! i;
          server = server\<lparr>ActiveConnections := ActiveConnections server + 1\<rparr>;
          server = server\<lparr>RequestCount := RequestCount server + 1\<rparr>
      in wlc\<lparr>servers := (servers wlc)[i := server], totalRequests := totalRequests wlc + 1\<rparr>)"

text \<open>The deferred \<open>server.ActiveConnections.Add(-1)\<close>.\<close>

definition dispatch_end :: "nat \<Rightarrow> WeightedLeastConnection \<Rightarrow> WeightedLeastConnection" where
  "dispatch_end i wlc =
     (let server = servers wlc ! i;
          server = server\<lparr>ActiveConnections := ActiveConnections server + (- 1)\<rparr>
      in wlc\<lparr>servers := (servers wlc)[i := server]\<rparr>)"

text \<open>
  \<open>ServeHTTP\<close> from the result of \<open>NextServer\<close> on: \<open>server\<close> is the pointer that the
  selection returned, \<open>wlc\<close> the state when the health flag is read again. When no
  other goroutine runs in between, \<open>wlc\<close> is the state the selection saw, as in
  \<open>ServeHTTP\<close> below; a health check in between can have cleared the flag.
\<close>

definition ServeHTTP_selected ::
  "nat option \<Rightarrow> (string \<Rightarrow> Forward) \<Rightarrow> WeightedLeastConnection \<Rightarrow> Reply \<times> WeightedLeastConnection" where
  "ServeHTTP_selected server forward wlc =
     (case server of
        None \<Rightarrow> (Text 503 ''Service Unavailable: No healthy backend servers available.'', wlc)
      | Some i \<Rightarrow>
          if \<not> IsHealthy (servers wlc ! i)
          then (Text 503 ''Service Unavailable: No healthy backend servers available.'', wlc)
          else let wlc1 = dispatch_begin i wlc;
                   out = forward (URL (servers wlc1 ! i));
                   wlc2 = dispatch_end i wlc1
               in (case out of Forwarded status \<Rightarrow> Proxied status | ForwardPanic \<Rightarrow> Panicked, wlc2))"

definition ServeHTTP ::
  "string \<Rightarrow> (string \<Rightarrow> Forward) \<Rightarrow> WeightedLeastConnection \<Rightarrow> Reply \<times> WeightedLeastConnection" where
  "ServeHTTP path forward wlc =
     (if path = ''/health'' \<or> path = ''/healthz'' then (handleHealthEndpoint wlc, wlc)
      else if path = ''/metrics'' then (handleMetricsEndpoint wlc, wlc)
      else ServeHTTP_selected (NextServer wlc) forward wlc)"

section \<open>Reading the configuration\<close>

subsection \<open>The library functions that \<open>parseServerInput\<close> calls\<close>

text \<open>
  A Go string is a sequence of bytes, here a \<open>char list\<close>. \<open>strings.TrimSpace\<close>
  removes the leading and the trailing code points of the UTF-8 text for which
  \<open>unicode.IsSpace\<close> holds; \<open>space_runes\<close> lists their encodings: tab, line feed,
  vertical tab, form feed, carriage return, space, U+0085, U+00A0, U+1680, U+2000 to
  U+200A, U+2028, U+2029, U+202F, U+205F and U+3000.
\<close>

definition space_runes :: "string list" where
  "space_runes =
     [[CHR 0x09], [CHR 0x0A], [CHR 0x0B], [CHR 0x0C], [CHR 0x0D], [CHR 0x20],
      [CHR 0xC2, CHR 0x85], [CHR 0xC2, CHR 0xA0],
      [CHR 0xE1, CHR 0x9A, CHR 0x80],
      [CHR 0xE2, CHR 0x80, CHR 0x80], [CHR 0xE2, CHR 0x80, CHR 0x81],
      [CHR 0xE2, CHR 0x80, CHR 0x82], [CHR 0xE2, CHR 0x80, CHR 0x83],
      [CHR 0xE2, CHR 0x80, CHR 0x84], [CHR 0xE2, CHR 0x80, CHR 0x85],
      [CHR 0xE2, CHR 0x80, CHR 0x86], [CHR 0xE2, CHR 0x80, CHR 0x87],
      [CHR 0xE2, CHR 0x80, CHR 0x88], [CHR 0xE2, CHR 0x80, CHR 0x89],
      [CHR 0xE2, CHR 0x80, CHR 0x8A],
      [CHR 0xE2, CHR 0x80, CHR 0xA8], [CHR 0xE2, CHR 0x80, CHR 0xA9],
      [CHR 0xE2, CHR 0x80, CHR 0xAF], [CHR 0xE2, CHR 0x81, CHR 0x9F],
      [CHR 0xE3, CHR 0x80, CHR 0x80]]"

definition HasPrefix :: "string \<Rightarrow> string \<Rightarrow> bool" where
  "HasPrefix s p = (take (length p) s = p)"

text \<open>The number of bytes of the first of \<open>es\<close> that \<open>s\<close> starts with, 0 when there is none.\<close>

definition leading_match :: "string list \<Rightarrow> string \<Rightarrow> nat" where
  "leading_match es s = (case filter (HasPrefix s) es of [] \<Rightarrow> 0 | e # _ \<Rightarrow> length e)"

function trim_leading :: "string list \<Rightarrow> string \<Rightarrow> string" where
  "trim_leading es s =
     (let n = leading_match es s in if n = 0 then s else trim_leading es (drop n s))"
  by pat_completeness auto
termination
proof (relation "measure (\<lambda>(es, s). length s)")
  show "wf (measure (\<lambda>(es, s). length s))" by simp
next
  fix es :: "string list" and s :: string and n :: nat
  assume n: "n = leading_match es s" and "n \<noteq> 0"
  then obtain e rest where f: "filter (HasPrefix s) es = e # rest" and len: "length e = n"
    by (auto simp: leading_match_def split: list.splits)
  from f have "e \<in> set (filter (HasPrefix s) es)" by simp
  then have "take (length e) s = e" by (simp add: HasPrefix_def)
  then have "length e \<le> length s" by (metis length_take min.cobounded1)
  with len \<open>n \<noteq> 0\<close> show "((es, drop n s), (es, s)) \<in> measure (\<lambda>(es, s). length s)"
    by simp
qed

definition TrimSpace :: "string \<Rightarrow> string" where
  "TrimSpace s = rev (trim_leading (map rev space_runes) (rev (trim_leading space_runes s)))"

text \<open>\<open>strings.Split\<close> for a separator of one byte: the pieces between the separators.\<close>

fun Split :: "string \<Rightarrow> char \<Rightarrow> string list" where
  "Split [] sep = [[]]"
| "Split (c # s) sep =
     (if c = sep then [] # Split s sep
      else case Split s sep of [] \<Rightarrow> [[c]] | p # ps \<Rightarrow> (c # p) # ps)"

text \<open>
  \<open>strconv.Atoi\<close> where \<open>int\<close> has 64 bits: an optional sign, then one or more decimal
  digits, and the value must fit; anything else is an error.
\<close>

definition digit :: "char \<Rightarrow> int option" where
  "digit ch = (let v = (of_char ch :: int) in if 48 \<le> v \<and> v \<le> 57 then Some (v - 48) else None)"

fun digits :: "string \<Rightarrow> int \<Rightarrow> int option" where
  "digits [] n = Some n"
| "digits (ch # s) n = (case digit ch of None \<Rightarrow> None | Some d \<Rightarrow> digits s (n * 10 + d))"

definition Atoi :: "string \<Rightarrow> int option" where
  "Atoi s0 =
     (if s0 = [] then None
      else let neg = (hd s0 = CHR ''-'');
               s = (if hd s0 = CHR ''-'' \<or> hd s0 = CHR ''+'' then tl s0 else s0)
           in if s = [] then None
              else case digits s 0 of
                     None \<Rightarrow> None
                   | Some n \<Rightarrow>
                       let v = (if neg then - n else n)
                       in if - (2 ^ 63) \<le> v \<and> v < 2 ^ 63 then Some v else None)"

subsection \<open>\<open>parseServerInput\<close>\<close>

text \<open>
  The body of the loop for a part that is not empty: the split at the slash, the
  default scheme, the weight and the construction of the server. \<open>now\<close> is the clock
  reading that \<open>NewServer\<close> takes.
\<close>

definition parse_entry :: "(string \<Rightarrow> bool) \<Rightarrow> 64 word \<Rightarrow> string \<Rightarrow> ConfigError + Server" where
  "parse_entry urlParse now part =
     (let addrWeight = Split part CHR ''/''
      in if length addrWeight \<noteq> 2 then Inl (InvalidFormat part)
         else let rawURL0 = addrWeight ! 0;
                  weightStr = addrWeight ! 1;
                  rawURL = (if \<not> HasPrefix rawURL0 ''http://'' \<and> \<not> HasPrefix rawURL0 ''https://''
                            then ''http://'' @ rawURL0 else rawURL0)
              in case Atoi weightStr of
                   None \<Rightarrow> Inl (InvalidWeight rawURL)
                 | Some weight \<Rightarrow>
                     if weight < 1 then Inl (InvalidWeight rawURL)
                     else NewServer urlParse now rawURL (word_of_int weight))"

text \<open>
  The loop over the parts. \<open>srvs\<close> is the slice \<open>servers\<close> built so far. The result
  comes with the list of the servers that \<open>NewServer\<close> has constructed up to the return
  (each construction is followed by the log line \<open>Added backend\<close>): on an error Go
  returns \<open>nil\<close> for the slice, the servers made for earlier entries are dropped.
  \<open>clock k\<close> is the clock reading at the construction of the server number \<open>k\<close>.
\<close>

fun parseServerInput_loop ::
  "(string \<Rightarrow> bool) \<Rightarrow> (nat \<Rightarrow> 64 word) \<Rightarrow> string list \<Rightarrow> Server list
     \<Rightarrow> (ConfigError + Server list) \<times> Server list" where
  "parseServerInput_loop urlParse clock [] srvs = (Inr srvs, srvs)"
| "parseServerInput_loop urlParse clock (part0 # parts) srvs =
     (let part = TrimSpace part0
      in if part = [] then parseServerInput_loop urlParse clock parts srvs
         else case parse_entry urlParse (clock (length srvs)) part of
                Inl err \<Rightarrow> (Inl err, srvs)
              | Inr server \<Rightarrow> parseServerInput_loop urlParse clock parts (srvs @ [server]))"

definition parseServerInput ::
  "(string \<Rightarrow> bool) \<Rightarrow> (nat \<Rightarrow> 64 word) \<Rightarrow> string \<Rightarrow> (ConfigError + Server list) \<times> Server list" where
  "parseServerInput urlParse clock input0 =
     (let input = TrimSpace input0;
          parts = Split input CHR '','';
          (res, constructed) = parseServerInput_loop urlParse clock parts []
      in case res of
           Inl err \<Rightarrow> (Inl err, constructed)
         | Inr srvs \<Rightarrow>
             if length srvs = 0 then (Inl NoServers, constructed)
             else (Inr srvs, constructed))"

text \<open>
  The entries of the configuration: the parts that the loop does not skip, trimmed, in
  their order. The loop handles them one by one.
\<close>

definition entries :: "string list \<Rightarrow> string list" where
  "entries parts = filter (\<lambda>part. part \<noteq> []) (map TrimSpace parts)"

section \<open>Properties of the float64 rounding\<close>

lemma round_even_upper: "of_int (round_even x) \<le> x + 1 / 2"
proof -
  have "of_int \<lfloor>x\<rfloor> \<le> x" by simp
  then show ?thesis
    unfolding round_even_def Let_def by (auto; linarith)
qed

lemma round_even_lower: "x - 1 / 2 \<le> of_int (round_even x)"
proof -
  have "x < of_int \<lfloor>x\<rfloor> + 1" by linarith
  then show ?thesis
    unfolding round_even_def Let_def by (auto; linarith)
qed

lemma ilog2_lower:
  assumes "0 < x"
  shows "2 powi ilog2 x \<le> x"
proof -
  obtain p q where pq: "quotient_of x = (p, q)" by (cases "quotient_of x")
  have q: "0 < q" using pq quotient_of_denom_pos by blast
  have x: "x = of_int p / of_int q" using pq quotient_of_div by blast
  have p: "0 < p" using assms q x by (simp add: zero_less_divide_iff)
  define k where "k = bitlen p - bitlen q"
  show ?thesis
  proof (cases "2 powi k \<le> x")
    case True
    then show ?thesis by (simp add: ilog2_def pq k_def)
  next
    case False
    then have il: "ilog2 x = k - 1" by (simp add: ilog2_def pq k_def)
    have bp: "1 \<le> bitlen p" using p bitlen_eq_zero_iff [of p] bitlen_nonneg [of p] by linarith
    have bq: "0 \<le> bitlen q" by (rule bitlen_nonneg)
    have "(2::int) ^ nat (bitlen p - 1) \<le> p" using bitlen_bounds [OF p] by simp
    then have "(of_int ((2::int) ^ nat (bitlen p - 1)) :: rat) \<le> of_int p"
      by (simp only: of_int_le_iff)
    then have lo: "(2::rat) powi (bitlen p - 1) \<le> of_int p"
      using bp by (simp add: power_int_def)
    have "q < (2::int) ^ nat (bitlen q)" using bitlen_bounds [OF q] by simp
    then have "(of_int q :: rat) < of_int ((2::int) ^ nat (bitlen q))"
      by (simp only: of_int_less_iff)
    then have hi: "(of_int q :: rat) \<le> 2 powi (bitlen q)"
      using bq by (simp add: power_int_def)
    have split: "(2::rat) powi (k - 1) = 2 powi (bitlen p - 1) / 2 powi (bitlen q)"
      unfolding k_def by (simp add: power_int_diff)
    have pos: "(0::rat) < 2 powi (bitlen q)" by (simp add: power_int_def)
    have "(2::rat) powi (k - 1) * of_int q \<le> 2 powi (k - 1) * 2 powi (bitlen q)"
      using hi by (intro mult_left_mono) (auto simp: power_int_def)
    also have "\<dots> = 2 powi (bitlen p - 1)" using pos by (simp add: split)
    also have "\<dots> \<le> of_int p" by (rule lo)
    finally have "(2::rat) powi (k - 1) \<le> of_int p / of_int q"
      using q by (simp add: pos_le_divide_eq)
    then show ?thesis using il x by simp
  qed
qed

lemma ilog2_upper:
  assumes "0 < x"
  shows "x < 2 powi (ilog2 x + 1)"
proof -
  obtain p q where pq: "quotient_of x = (p, q)" by (cases "quotient_of x")
  have q: "0 < q" using pq quotient_of_denom_pos by blast
  have x: "x = of_int p / of_int q" using pq quotient_of_div by blast
  have p: "0 < p" using assms q x by (simp add: zero_less_divide_iff)
  define k where "k = bitlen p - bitlen q"
  show ?thesis
  proof (cases "2 powi k \<le> x")
    case False
    then show ?thesis by (simp add: ilog2_def pq k_def)
  next
    case True
    then have il: "ilog2 x = k" by (simp add: ilog2_def pq k_def)
    have bq: "1 \<le> bitlen q" using q bitlen_eq_zero_iff [of q] bitlen_nonneg [of q] by linarith
    have bp: "0 \<le> bitlen p" by (rule bitlen_nonneg)
    have "p < (2::int) ^ nat (bitlen p)" using bitlen_bounds [OF p] by simp
    then have "(of_int p :: rat) < of_int ((2::int) ^ nat (bitlen p))"
      by (simp only: of_int_less_iff)
    then have hi: "(of_int p :: rat) < 2 powi (bitlen p)"
      using bp by (simp add: power_int_def)
    have "(2::int) ^ nat (bitlen q - 1) \<le> q" using bitlen_bounds [OF q] by simp
    then have "(of_int ((2::int) ^ nat (bitlen q - 1)) :: rat) \<le> of_int q"
      by (simp only: of_int_le_iff)
    then have lo: "(2::rat) powi (bitlen q - 1) \<le> of_int q"
      using bq by (simp add: power_int_def)
    have split: "(2::rat) powi (k + 1) * 2 powi (bitlen q - 1) = 2 powi (bitlen p)"
      unfolding k_def by (simp flip: power_int_add)
    have "of_int p < (2::rat) powi (k + 1) * 2 powi (bitlen q - 1)"
      using hi by (simp only: split)
    also have "\<dots> \<le> 2 powi (k + 1) * of_int q"
      using lo by (intro mult_left_mono) (auto simp: power_int_def)
    finally have "of_int p / of_int q < (2::rat) powi (k + 1)"
      using q by (simp add: pos_divide_less_eq)
    then show ?thesis using il x by simp
  qed
qed

text \<open>
  So the scaled magnitude that \<open>f64\<close> rounds lies between \<open>2^52\<close> and \<open>2^53\<close>: the
  result has a significand of 53 bits.
\<close>

lemma f64_significand:
  assumes "x \<noteq> 0"
  shows "2 ^ 52 \<le> \<bar>x\<bar> / 2 powi (ilog2 \<bar>x\<bar> - 52) \<and> \<bar>x\<bar> / 2 powi (ilog2 \<bar>x\<bar> - 52) < 2 ^ 53"
proof -
  have pos: "0 < \<bar>x\<bar>" using assms by simp
  define u :: rat where "u = 2 powi (ilog2 \<bar>x\<bar> - 52)"
  have upos: "0 < u" by (simp add: u_def power_int_def)
  have "(2::rat) powi ilog2 \<bar>x\<bar> = u * 2 ^ 52"
    by (simp add: u_def power_int_diff)
  then have lo: "u * 2 ^ 52 \<le> \<bar>x\<bar>" using ilog2_lower [OF pos] by simp
  have "(2::rat) powi (ilog2 \<bar>x\<bar> + 1) = u * 2 ^ 53"
    by (simp add: u_def power_int_diff power_int_add)
  then have hi: "\<bar>x\<bar> < u * 2 ^ 53" using ilog2_upper [OF pos] by simp
  from lo hi upos show ?thesis
    unfolding u_def [symmetric] by (simp add: pos_le_divide_eq pos_divide_less_eq mult.commute)
qed

lemma f64_error: "\<bar>f64 x - x\<bar> \<le> \<bar>x\<bar> / 2 ^ 53"
proof (cases "x = 0")
  case True
  then show ?thesis by (simp add: f64_def)
next
  case False
  define e where "e = ilog2 \<bar>x\<bar> - 52"
  define u :: rat where "u = 2 powi e"
  define m :: rat where "m = of_int (round_even (\<bar>x\<bar> / u))"
  have upos: "0 < u" by (simp add: u_def power_int_def)
  have f: "f64 x = sgn x * (m * u)"
    using False by (simp add: f64_def Let_def e_def u_def m_def)
  have "2 powi ilog2 \<bar>x\<bar> \<le> \<bar>x\<bar>" using False by (intro ilog2_lower) simp
  moreover have "(2::rat) powi ilog2 \<bar>x\<bar> = u * 2 ^ 52"
    by (simp add: u_def e_def power_int_diff)
  ultimately have ux: "u * 2 ^ 52 \<le> \<bar>x\<bar>" by simp
  have "\<bar>m - \<bar>x\<bar> / u\<bar> \<le> 1 / 2"
    using round_even_upper [of "\<bar>x\<bar> / u"] round_even_lower [of "\<bar>x\<bar> / u"]
    unfolding m_def by linarith
  then have "\<bar>m - \<bar>x\<bar> / u\<bar> * u \<le> 1 / 2 * u"
    using upos by (intro mult_right_mono) auto
  moreover have "\<bar>m - \<bar>x\<bar> / u\<bar> * u = \<bar>m * u - \<bar>x\<bar>\<bar>"
  proof -
    have "\<bar>m - \<bar>x\<bar> / u\<bar> * u = \<bar>(m - \<bar>x\<bar> / u) * u\<bar>" using upos by (simp add: abs_mult)
    also have "(m - \<bar>x\<bar> / u) * u = m * u - \<bar>x\<bar>" using upos by (simp add: field_simps)
    finally show ?thesis .
  qed
  ultimately have d: "\<bar>m * u - \<bar>x\<bar>\<bar> \<le> u / 2" by simp
  have "f64 x - x = sgn x * (m * u - \<bar>x\<bar>)"
    by (simp add: f algebra_simps flip: abs_sgn) (metis mult.commute mult_sgn_abs)
  then have "\<bar>f64 x - x\<bar> = \<bar>m * u - \<bar>x\<bar>\<bar>"
    using False by (simp add: abs_mult abs_sgn_eq)
  also have "\<dots> \<le> u / 2" by (rule d)
  also have "\<dots> \<le> \<bar>x\<bar> / 2 ^ 53" using ux by (simp add: field_simps)
  finally show ?thesis .
qed

lemma f64_pos: "0 < x \<Longrightarrow> 0 < f64 x"
proof -
  assume x: "0 < x"
  have "x / 2 ^ 53 < x" using x by (simp add: field_simps)
  then show ?thesis using f64_error [of x] x by linarith
qed

lemma f64_neg: "x < 0 \<Longrightarrow> f64 x < 0"
proof -
  assume x: "x < 0"
  have "\<bar>x\<bar> / 2 ^ 53 < \<bar>x\<bar>" using x by (simp add: field_simps)
  then show ?thesis using f64_error [of x] x by linarith
qed

lemma f64_0 [simp]: "f64 0 = 0"
  by (simp add: f64_def)

lemma f64_eq_0_iff: "f64 x = 0 \<longleftrightarrow> x = 0"
  using f64_pos [of x] f64_neg [of x] by (cases "x = 0") (auto simp: neq_iff)

lemma f64_nonneg: "0 \<le> x \<Longrightarrow> 0 \<le> f64 x"
  using f64_pos [of x] by (cases "x = 0") auto

lemma f64_abs_le: "\<bar>f64 x\<bar> \<le> 2 * \<bar>x\<bar>"
proof -
  have "\<bar>x\<bar> / 2 ^ 53 \<le> \<bar>x\<bar>" by (simp add: field_simps)
  then show ?thesis using f64_error [of x] by linarith
qed

lemma f64_abs_ge: "\<bar>x\<bar> / 2 \<le> \<bar>f64 x\<bar>"
proof -
  have "\<bar>x\<bar> / 2 ^ 53 \<le> \<bar>x\<bar> / 2" by (simp add: field_simps)
  then show ?thesis using f64_error [of x] by linarith
qed

text \<open>Integers below \<open>2^53\<close> in magnitude are float64 numbers: converting them is exact.\<close>

lemma round_even_of_int [simp]: "round_even (of_int n) = n"
  by (simp add: round_even_def)

lemma f64_of_int_exact:
  assumes "\<bar>n\<bar> < 2 ^ 53"
  shows "f64 (of_int n) = of_int n"
proof (cases "n = 0")
  case True
  then show ?thesis by simp
next
  case False
  define x :: rat where "x = of_int n"
  define e where "e = ilog2 \<bar>x\<bar> - 52"
  have x0: "x \<noteq> 0" using False by (simp add: x_def)
  have "2 powi ilog2 \<bar>x\<bar> \<le> \<bar>x\<bar>" using x0 by (intro ilog2_lower) simp
  also have "\<bar>x\<bar> < 2 ^ 53"
  proof -
    have "(of_int \<bar>n\<bar> :: rat) < of_int (2 ^ 53)" using assms by (simp only: of_int_less_iff)
    then show ?thesis by (simp add: x_def)
  qed
  finally have "(2::rat) powi ilog2 \<bar>x\<bar> < 2 powi 53" by simp
  then have "ilog2 \<bar>x\<bar> < 53"
    using power_int_le_imp_less_exp [of "2::rat" "ilog2 \<bar>x\<bar>" 53] by simp
  then have e: "e \<le> 0" by (simp add: e_def)
  have "\<bar>x\<bar> / 2 powi e = \<bar>x\<bar> * 2 ^ nat (- e)"
    using e by (simp add: power_int_def field_simps power_inverse)
  also have "\<dots> = of_int (\<bar>n\<bar> * 2 ^ nat (- e))" by (simp add: x_def)
  finally have "round_even (\<bar>x\<bar> / 2 powi e) = \<bar>n\<bar> * 2 ^ nat (- e)"
    by (simp only: round_even_of_int)
  then have "of_int (round_even (\<bar>x\<bar> / 2 powi e)) * 2 powi e = \<bar>x\<bar> * (2 ^ nat (- e) * 2 powi e)"
    by (simp add: x_def)
  also have "(2::rat) ^ nat (- e) * 2 powi e = 1"
    using e by (simp add: power_int_def flip: power_mult_distrib)
  finally have "f64 x = sgn x * \<bar>x\<bar>"
    using x0 by (simp add: f64_def Let_def e_def)
  also have "sgn x * \<bar>x\<bar> = x" by (rule mult_sgn_abs)
  finally show ?thesis by (simp only: x_def)
qed

section \<open>The load ratio\<close>

lemma Ratio_unhealthy: "\<not> IsHealthy s \<Longrightarrow> Ratio s = 10 ^ 18"
  by (simp add: Ratio_def)

lemma sint_eq_0_iff: "sint w = 0 \<longleftrightarrow> w = 0"
  by (rule signed_eq_0_iff)

lemma f64_weight_eq_0_iff: "f64 (of_int (sint (Weight s))) = 0 \<longleftrightarrow> Weight s = 0"
  by (simp add: f64_eq_0_iff sint_eq_0_iff del: of_int_sint)

lemma Ratio_zero_weight: "Weight s = 0 \<Longrightarrow> Ratio s = 10 ^ 18"
  by (simp add: Ratio_def)

lemma Ratio_quotient:
  "IsHealthy s \<Longrightarrow> Weight s \<noteq> 0 \<Longrightarrow>
     Ratio s = f64 (f64 (of_int (sint (ActiveConnections s))) / f64 (of_int (sint (Weight s))))"
  by (simp add: Ratio_def f64_weight_eq_0_iff Let_def del: of_int_sint)

lemma conn_exact: "f64 (of_int (sint (c :: 32 word))) = of_int (sint c)"
proof -
  have "- (2 ^ 31) \<le> sint c" "sint c < 2 ^ 31"
    using sint_ge [of c] sint_lt [of c] by simp_all
  then have "\<bar>sint c\<bar> < 2 ^ 53" by (simp add: abs_less_iff)
  then show ?thesis by (rule f64_of_int_exact)
qed

lemma Ratio_abs_bound:
  assumes "IsHealthy s" "Weight s \<noteq> 0"
  shows "\<bar>Ratio s\<bar> \<le> 2 ^ 34"
proof -
  define c :: rat where "c = of_int (sint (ActiveConnections s))"
  define w :: rat where "w = of_int (sint (Weight s))"
  have "- (2 ^ 31) \<le> sint (ActiveConnections s)" "sint (ActiveConnections s) < 2 ^ 31"
    using sint_ge [of "ActiveConnections s"] sint_lt [of "ActiveConnections s"] by simp_all
  then have "\<bar>sint (ActiveConnections s)\<bar> \<le> 2 ^ 31" by (simp add: abs_le_iff)
  then have "(of_int \<bar>sint (ActiveConnections s)\<bar> :: rat) \<le> of_int (2 ^ 31)"
    by (simp only: of_int_le_iff)
  then have c: "\<bar>c\<bar> \<le> 2 ^ 31" by (simp add: c_def)
  have "sint (Weight s) \<noteq> 0" using assms(2) by (simp add: sint_eq_0_iff)
  then have "1 \<le> \<bar>sint (Weight s)\<bar>" by linarith
  then have "(of_int 1 :: rat) \<le> of_int \<bar>sint (Weight s)\<bar>" by (simp only: of_int_le_iff)
  then have w: "1 \<le> \<bar>w\<bar>" by (simp add: w_def)
  have fw: "1 / 2 \<le> \<bar>f64 w\<bar>" using f64_abs_ge [of w] w by linarith
  have "\<bar>f64 c / f64 w\<bar> = \<bar>f64 c\<bar> / \<bar>f64 w\<bar>" by simp
  also have "\<dots> \<le> \<bar>f64 c\<bar> / (1 / 2)" using fw by (intro divide_left_mono) auto
  also have "\<dots> \<le> 2 ^ 33" using f64_abs_le [of c] c by simp
  finally have q: "\<bar>f64 c / f64 w\<bar> \<le> 2 ^ 33" .
  have "\<bar>f64 (f64 c / f64 w)\<bar> \<le> 2 * \<bar>f64 c / f64 w\<bar>" by (rule f64_abs_le)
  also have "\<dots> \<le> 2 ^ 34" using q by simp
  finally show ?thesis using assms by (simp add: Ratio_quotient c_def w_def del: of_int_sint)
qed

lemma Ratio_less_sentinel: "IsHealthy s \<Longrightarrow> Weight s \<noteq> 0 \<Longrightarrow> Ratio s < 10 ^ 18"
  using Ratio_abs_bound [of s] by simp

lemma Ratio_less_iff: "Ratio s < 10 ^ 18 \<longleftrightarrow> IsHealthy s \<and> Weight s \<noteq> 0"
  using Ratio_less_sentinel [of s] Ratio_unhealthy [of s] Ratio_zero_weight [of s]
  by (cases "IsHealthy s"; cases "Weight s = 0") simp_all

lemma Ratio_nonneg:
  assumes "0 \<le> sint (ActiveConnections s)" "0 < sint (Weight s)"
  shows "0 \<le> Ratio s"
proof (cases "IsHealthy s")
  case False
  then show ?thesis by (simp add: Ratio_unhealthy)
next
  case True
  have w: "Weight s \<noteq> 0" using assms(2) by auto
  have "0 \<le> f64 (of_int (sint (ActiveConnections s)))" using assms(1) by (intro f64_nonneg) (simp del: of_int_sint)
  moreover have "0 < f64 (of_int (sint (Weight s)))" using assms(2) by (intro f64_pos) (simp del: of_int_sint)
  ultimately have "0 \<le> f64 (of_int (sint (ActiveConnections s))) / f64 (of_int (sint (Weight s)))"
    by simp
  then show ?thesis using True w by (simp add: Ratio_quotient f64_nonneg del: of_int_sint)
qed

lemma Ratio_negative:
  assumes "IsHealthy s" "0 < sint (ActiveConnections s)" "sint (Weight s) < 0"
  shows "Ratio s < 0"
proof -
  have w: "Weight s \<noteq> 0" using assms(3) by auto
  have "0 < f64 (of_int (sint (ActiveConnections s)))" using assms(2) by (intro f64_pos) (simp del: of_int_sint)
  moreover have "f64 (of_int (sint (Weight s))) < 0" using assms(3) by (intro f64_neg) (simp del: of_int_sint)
  ultimately have "f64 (of_int (sint (ActiveConnections s))) / f64 (of_int (sint (Weight s))) < 0"
    by (simp add: divide_pos_neg)
  then show ?thesis using assms(1) w by (simp add: Ratio_quotient f64_neg del: of_int_sint)
qed

lemma Ratio_accuracy:
  assumes "IsHealthy s" "Weight s \<noteq> 0"
  shows "\<bar>Ratio s - of_int (sint (ActiveConnections s)) / of_int (sint (Weight s))\<bar>
           \<le> \<bar>of_int (sint (ActiveConnections s)) / of_int (sint (Weight s))\<bar> / 2 ^ 51"
proof -
  define c :: rat where "c = of_int (sint (ActiveConnections s))"
  define w :: rat where "w = of_int (sint (Weight s))"
  define w' where "w' = f64 w"
  define q where "q = c / w'"
  have w0: "w \<noteq> 0" using assms(2) by (simp add: w_def sint_eq_0_iff del: of_int_sint)
  have w'0: "w' \<noteq> 0" using w0 by (simp add: w'_def f64_eq_0_iff)
  have r: "Ratio s = f64 q"
    using assms by (simp add: Ratio_quotient conn_exact q_def w'_def c_def w_def del: of_int_sint)
  have ew: "\<bar>w' - w\<bar> \<le> \<bar>w\<bar> / 2 ^ 53" unfolding w'_def by (rule f64_error)
  have er: "\<bar>f64 q - q\<bar> \<le> \<bar>q\<bar> / 2 ^ 53" by (rule f64_error)
  have hw: "\<bar>w\<bar> / 2 \<le> \<bar>w'\<bar>" unfolding w'_def by (rule f64_abs_ge)
  have "q - c / w = c * (w - w') / (w * w')"
    using w0 w'0 by (simp add: q_def field_simps)
  then have "\<bar>q - c / w\<bar> = \<bar>c\<bar> * \<bar>w' - w\<bar> / (\<bar>w\<bar> * \<bar>w'\<bar>)"
    by (simp add: abs_mult abs_minus_commute)
  also have "\<dots> \<le> \<bar>c\<bar> * (\<bar>w\<bar> / 2 ^ 53) / (\<bar>w\<bar> * \<bar>w'\<bar>)"
    using ew by (intro divide_right_mono mult_left_mono) auto
  also have "\<dots> = \<bar>q\<bar> / 2 ^ 53" using w0 w'0 by (simp add: q_def)
  finally have eq: "\<bar>q - c / w\<bar> \<le> \<bar>q\<bar> / 2 ^ 53" .
  have "\<bar>q\<bar> = \<bar>c\<bar> / \<bar>w'\<bar>" by (simp add: q_def)
  also have "\<dots> \<le> \<bar>c\<bar> / (\<bar>w\<bar> / 2)"
    using hw w0 by (intro divide_left_mono) auto
  also have "\<dots> = 2 * \<bar>c / w\<bar>" by simp
  finally have qb: "\<bar>q\<bar> \<le> 2 * \<bar>c / w\<bar>" .
  have "\<bar>f64 q - c / w\<bar> \<le> \<bar>f64 q - q\<bar> + \<bar>q - c / w\<bar>" by linarith
  also have "\<dots> \<le> \<bar>q\<bar> / 2 ^ 53 + \<bar>q\<bar> / 2 ^ 53" using er eq by linarith
  also have "\<dots> = \<bar>q\<bar> / 2 ^ 52" by simp
  also have "\<dots> \<le> 2 * \<bar>c / w\<bar> / 2 ^ 52" using qb by (intro divide_right_mono) auto
  also have "\<dots> = \<bar>c / w\<bar> / 2 ^ 51" by simp
  finally show ?thesis unfolding r c_def w_def .
qed

text \<open>
  C7. The load ratio of a healthy server of positive weight is the float64 quotient of
  its active connections by its weight, so it is the exact quotient up to the rounding
  of float64 (relative error at most \<open>2^-51\<close>) and lies strictly below the sentinel
  \<open>10^18\<close>; the ratio of an unhealthy server and of a server of weight 0 is the
  sentinel.
\<close>

theorem Ratio_cases:
  "(IsHealthy s \<and> 0 < sint (Weight s) \<longrightarrow>
      Ratio s = f64 (of_int (sint (ActiveConnections s)) / f64 (of_int (sint (Weight s)))) \<and>
      \<bar>Ratio s - of_int (sint (ActiveConnections s)) / of_int (sint (Weight s))\<bar>
         \<le> \<bar>of_int (sint (ActiveConnections s)) / of_int (sint (Weight s))\<bar> / 2 ^ 51 \<and>
      Ratio s < 10 ^ 18) \<and>
   (\<not> IsHealthy s \<or> Weight s = 0 \<longrightarrow> Ratio s = 10 ^ 18)"
proof (intro conjI impI)
  assume h: "IsHealthy s \<and> 0 < sint (Weight s)"
  then have w: "Weight s \<noteq> 0" by auto
  show "Ratio s = f64 (of_int (sint (ActiveConnections s)) / f64 (of_int (sint (Weight s))))"
    using h w by (simp add: Ratio_quotient conn_exact del: of_int_sint)
  show "\<bar>Ratio s - of_int (sint (ActiveConnections s)) / of_int (sint (Weight s))\<bar>
         \<le> \<bar>of_int (sint (ActiveConnections s)) / of_int (sint (Weight s))\<bar> / 2 ^ 51"
    using h w by (intro Ratio_accuracy) simp_all
  show "Ratio s < 10 ^ 18" using h w by (intro Ratio_less_sentinel) simp_all
next
  assume "\<not> IsHealthy s \<or> Weight s = 0"
  then show "Ratio s = 10 ^ 18" using Ratio_unhealthy [of s] Ratio_zero_weight [of s] by blast
qed

theorem Ratio_cases_witness:
  "Ratio \<lparr>URL = ''http://a'', Weight = 2, ActiveConnections = 1, RequestCount = 0,
          IsHealthy = True, FailureCount = 0, LastCheckTime = 0\<rparr> = 1 / 2 \<and>
   Ratio \<lparr>URL = ''http://a'', Weight = 2, ActiveConnections = 1, RequestCount = 0,
          IsHealthy = False, FailureCount = 0, LastCheckTime = 0\<rparr> = 10 ^ 18"
proof -
  let ?s = "\<lparr>URL = ''http://a'', Weight = 2, ActiveConnections = 1, RequestCount = 0,
          IsHealthy = True, FailureCount = 0, LastCheckTime = 0\<rparr>"
  let ?u = "\<lparr>URL = ''http://a'', Weight = 2, ActiveConnections = 1, RequestCount = 0,
          IsHealthy = False, FailureCount = 0, LastCheckTime = 0\<rparr>"
  have e: "f64 (1 / f64 2) = 1 / 2" by code_simp
  have "IsHealthy ?s \<and> 0 < sint (Weight ?s)" by simp
  then have "Ratio ?s = f64 (of_int (sint (ActiveConnections ?s)) / f64 (of_int (sint (Weight ?s))))"
    using Ratio_cases [of ?s] by blast
  then have 1: "Ratio ?s = 1 / 2" using e by simp
  have "\<not> IsHealthy ?u \<or> Weight ?u = 0" by simp
  then have 2: "Ratio ?u = 10 ^ 18" using Ratio_cases [of ?u] by blast
  show ?thesis using 1 2 by blast
qed

subsection \<open>The selection loop\<close>

lemma NextServer_loop_keep:
  "\<forall>s \<in> set xs. \<not> Ratio s < r \<Longrightarrow> NextServer_loop xs i best r = best"
  by (induction xs arbitrary: i) (simp_all add: Let_def)

lemma NextServer_loop_min:
  assumes "\<exists>s \<in> set xs. Ratio s < r"
  shows "\<exists>j < length xs. NextServer_loop xs i best r = Some (i + j) \<and> Ratio (xs ! j) < r \<and>
           (\<forall>k < length xs. Ratio (xs ! j) \<le> Ratio (xs ! k)) \<and>
           (\<forall>k < j. Ratio (xs ! j) < Ratio (xs ! k))"
  using assms
proof (induction xs arbitrary: i best r)
  case Nil
  then show ?case by simp
next
  case (Cons x xs)
  show ?case
  proof (cases "Ratio x < r")
    case True
    note xr = True
    show ?thesis
    proof (cases "\<exists>s \<in> set xs. Ratio s < Ratio x")
      case True
      from Cons.IH [OF True, of "Suc i" "Some i"]
      obtain j where j: "j < length xs"
        "NextServer_loop xs (Suc i) (Some i) (Ratio x) = Some (Suc i + j)"
        "Ratio (xs ! j) < Ratio x"
        "\<forall>k < length xs. Ratio (xs ! j) \<le> Ratio (xs ! k)"
        "\<forall>k < j. Ratio (xs ! j) < Ratio (xs ! k)" by blast
      have "\<forall>k < length (x # xs). Ratio ((x # xs) ! Suc j) \<le> Ratio ((x # xs) ! k)"
        using j(3,4) by (auto simp: nth_Cons split: nat.splits)
      moreover have "\<forall>k < Suc j. Ratio ((x # xs) ! Suc j) < Ratio ((x # xs) ! k)"
        using j(3,5) by (auto simp: nth_Cons split: nat.splits)
      moreover have "Ratio ((x # xs) ! Suc j) < r" using j(3) xr by simp
      moreover have "NextServer_loop (x # xs) i best r = Some (i + Suc j)"
        using xr j(2) by (simp add: Let_def)
      moreover have "Suc j < length (x # xs)" using j(1) by simp
      ultimately show ?thesis by blast
    next
      case False
      then have "NextServer_loop xs (Suc i) (Some i) (Ratio x) = Some i"
        by (intro NextServer_loop_keep) blast
      then have "NextServer_loop (x # xs) i best r = Some (i + 0)"
        using xr by (simp add: Let_def)
      moreover have "\<forall>k < length (x # xs). Ratio ((x # xs) ! 0) \<le> Ratio ((x # xs) ! k)"
        using False by (auto simp: nth_Cons not_less split: nat.splits)
      moreover have "Ratio ((x # xs) ! 0) < r" using xr by simp
      ultimately show ?thesis by (intro exI [of _ 0]) simp
    qed
  next
    case False
    then have ex: "\<exists>s \<in> set xs. Ratio s < r" using Cons.prems by auto
    from Cons.IH [OF ex, of "Suc i" best]
    obtain j where j: "j < length xs"
      "NextServer_loop xs (Suc i) best r = Some (Suc i + j)"
      "Ratio (xs ! j) < r"
      "\<forall>k < length xs. Ratio (xs ! j) \<le> Ratio (xs ! k)"
      "\<forall>k < j. Ratio (xs ! j) < Ratio (xs ! k)" by blast
    have "\<forall>k < length (x # xs). Ratio ((x # xs) ! Suc j) \<le> Ratio ((x # xs) ! k)"
      using j(3,4) False by (auto simp: nth_Cons split: nat.splits)
    moreover have "\<forall>k < Suc j. Ratio ((x # xs) ! Suc j) < Ratio ((x # xs) ! k)"
      using j(3,5) False by (auto simp: nth_Cons split: nat.splits)
    moreover have "Ratio ((x # xs) ! Suc j) < r" using j(3) by simp
    moreover have "NextServer_loop (x # xs) i best r = Some (i + Suc j)"
      using False j(2) by (simp add: Let_def)
    moreover have "Suc j < length (x # xs)" using j(1) by simp
    ultimately show ?thesis by blast
  qed
qed

subsection \<open>What \<open>NextServer\<close> returns\<close>

lemma Ratio_less_numeral_iff: "Ratio s < 1000000000000000000 \<longleftrightarrow> IsHealthy s \<and> Weight s \<noteq> 0"
  using Ratio_less_iff [of s] by simp

lemma NextServer_None_iff:
  "NextServer wlc = None \<longleftrightarrow> (\<forall>s \<in> set (servers wlc). \<not> Ratio s < 10 ^ 18)"
proof (cases "\<exists>s \<in> set (servers wlc). Ratio s < 10 ^ 18")
  case True
  then have ne: "servers wlc \<noteq> []" by auto
  from NextServer_loop_min [OF True, of 0 None]
  show ?thesis using True ne by (auto simp: NextServer_def)
next
  case False
  then have "NextServer_loop (servers wlc) 0 None (10 ^ 18) = None"
    by (intro NextServer_loop_keep) blast
  then show ?thesis using False by (simp add: NextServer_def)
qed

lemma NextServer_Some:
  assumes "NextServer wlc = Some i"
  shows "i < length (servers wlc) \<and> Ratio (servers wlc ! i) < 10 ^ 18 \<and>
         (\<forall>k < length (servers wlc). Ratio (servers wlc ! i) \<le> Ratio (servers wlc ! k)) \<and>
         (\<forall>k < i. Ratio (servers wlc ! i) < Ratio (servers wlc ! k))"
proof -
  have ex: "\<exists>s \<in> set (servers wlc). Ratio s < 10 ^ 18"
    using assms NextServer_None_iff [of wlc] by auto
  then have ne: "servers wlc \<noteq> []" by auto
  from NextServer_loop_min [OF ex, of 0 None]
  show ?thesis using assms ne by (auto simp: NextServer_def)
qed

text \<open>
  C8. Whatever the pool, \<open>NextServer\<close> returns none or the position of a server whose
  ratio is strictly below the sentinel \<open>10^18\<close>, that is of a healthy server of nonzero
  weight. An unhealthy server is never returned; when every server of the pool is
  unhealthy the result is none.
\<close>

theorem NextServer_below_sentinel:
  "(\<forall>i. NextServer wlc = Some i \<longrightarrow>
      i < length (servers wlc) \<and> Ratio (servers wlc ! i) < 10 ^ 18 \<and>
      IsHealthy (servers wlc ! i) \<and> Weight (servers wlc ! i) \<noteq> 0) \<and>
   ((\<forall>s \<in> set (servers wlc). \<not> IsHealthy s) \<longrightarrow> NextServer wlc = None)"
proof (intro conjI allI impI)
  fix i assume a: "NextServer wlc = Some i"
  from NextServer_Some [OF a]
  show "i < length (servers wlc)" and r: "Ratio (servers wlc ! i) < 10 ^ 18" by simp_all
  from r show "IsHealthy (servers wlc ! i)" "Weight (servers wlc ! i) \<noteq> 0"
    by (simp_all add: Ratio_less_iff Ratio_less_numeral_iff)
next
  assume "\<forall>s \<in> set (servers wlc). \<not> IsHealthy s"
  then have "\<forall>s \<in> set (servers wlc). \<not> Ratio s < 10 ^ 18"
    by (simp add: Ratio_less_iff Ratio_less_numeral_iff)
  then show "NextServer wlc = None" by (simp add: NextServer_None_iff)
qed

theorem NextServer_below_sentinel_witness:
  "NextServer \<lparr>servers =
      [\<lparr>URL = ''http://a'', Weight = 1, ActiveConnections = 0, RequestCount = 0,
        IsHealthy = False, FailureCount = 1, LastCheckTime = 0\<rparr>,
       \<lparr>URL = ''http://b'', Weight = 1, ActiveConnections = 4, RequestCount = 4,
        IsHealthy = True, FailureCount = 0, LastCheckTime = 0\<rparr>],
      totalRequests = 4\<rparr> = Some 1 \<and>
   NextServer \<lparr>servers =
      [\<lparr>URL = ''http://a'', Weight = 1, ActiveConnections = 0, RequestCount = 0,
        IsHealthy = False, FailureCount = 1, LastCheckTime = 0\<rparr>,
       \<lparr>URL = ''http://b'', Weight = 1, ActiveConnections = 4, RequestCount = 4,
        IsHealthy = False, FailureCount = 1, LastCheckTime = 0\<rparr>],
      totalRequests = 4\<rparr> = None"
proof -
  let ?a = "\<lparr>URL = ''http://a'', Weight = 1, ActiveConnections = 0, RequestCount = 0,
        IsHealthy = False, FailureCount = 1, LastCheckTime = 0\<rparr>"
  let ?b = "\<lparr>URL = ''http://b'', Weight = 1, ActiveConnections = 4, RequestCount = 4,
        IsHealthy = True, FailureCount = 0, LastCheckTime = 0\<rparr>"
  let ?p = "\<lparr>servers = [?a, ?b], totalRequests = 4\<rparr>"
  let ?q = "\<lparr>servers = [?a, ?b\<lparr>IsHealthy := False, FailureCount := 1\<rparr>], totalRequests = 4\<rparr>"
  have "NextServer ?p \<noteq> None"
    using NextServer_below_sentinel [of ?p] NextServer_None_iff [of ?p]
    by (auto simp: Ratio_less_iff Ratio_less_numeral_iff)
  then obtain i where i: "NextServer ?p = Some i" by blast
  then have "i < length (servers ?p) \<and> IsHealthy (servers ?p ! i)"
    using NextServer_below_sentinel [of ?p] by blast
  then have "i = 1" by (cases i) (auto simp: less_Suc_eq)
  then have 1: "NextServer ?p = Some 1" using i by simp
  have "\<forall>s \<in> set (servers ?q). \<not> IsHealthy s" by simp
  then have 2: "NextServer ?q = None" using NextServer_below_sentinel [of ?q] by blast
  show ?thesis using 1 2 by simp
qed

text \<open>
  C1, as the specification states it, does not hold: a pool of one unhealthy server is
  not empty, and \<open>NextServer\<close> returns none for it, not its first entry.
\<close>

theorem NextServer_all_unhealthy_counterexample:
  "servers \<lparr>servers =
      [\<lparr>URL = ''http://a'', Weight = 1, ActiveConnections = 0, RequestCount = 0,
        IsHealthy = False, FailureCount = 1, LastCheckTime = 0\<rparr>],
      totalRequests = 0\<rparr> \<noteq> [] \<and>
   NextServer \<lparr>servers =
      [\<lparr>URL = ''http://a'', Weight = 1, ActiveConnections = 0, RequestCount = 0,
        IsHealthy = False, FailureCount = 1, LastCheckTime = 0\<rparr>],
      totalRequests = 0\<rparr> = None"
  by (simp add: NextServer_def Ratio_def)

text \<open>
  C1, amended. \<open>NextServer\<close> returns none exactly when the pool holds no healthy server
  of nonzero weight, in particular when the pool is empty and when every server is
  unhealthy. Otherwise it returns the position of a server of the pool, and that server
  is healthy: an unhealthy server is never returned.
\<close>

theorem NextServer_none_iff_no_eligible:
  "(NextServer wlc = None \<longleftrightarrow> (\<forall>s \<in> set (servers wlc). \<not> IsHealthy s \<or> Weight s = 0)) \<and>
   (\<forall>i. NextServer wlc = Some i \<longrightarrow> i < length (servers wlc) \<and> IsHealthy (servers wlc ! i))"
proof (intro conjI allI impI)
  show "NextServer wlc = None \<longleftrightarrow> (\<forall>s \<in> set (servers wlc). \<not> IsHealthy s \<or> Weight s = 0)"
    by (auto simp: NextServer_None_iff Ratio_less_iff Ratio_less_numeral_iff)
next
  fix i assume a: "NextServer wlc = Some i"
  from NextServer_Some [OF a]
  have l: "i < length (servers wlc)" and r: "Ratio (servers wlc ! i) < 10 ^ 18" by simp_all
  from l show "i < length (servers wlc)" .
  from r show "IsHealthy (servers wlc ! i)" by (simp add: Ratio_less_numeral_iff)
qed

theorem NextServer_none_iff_no_eligible_witness:
  "NextServer \<lparr>servers = [], totalRequests = 0\<rparr> = None \<and>
   NextServer \<lparr>servers =
      [\<lparr>URL = ''http://a'', Weight = 0, ActiveConnections = 0, RequestCount = 0,
        IsHealthy = True, FailureCount = 0, LastCheckTime = 0\<rparr>,
       \<lparr>URL = ''http://b'', Weight = 3, ActiveConnections = 0, RequestCount = 0,
        IsHealthy = False, FailureCount = 2, LastCheckTime = 0\<rparr>],
      totalRequests = 0\<rparr> = None \<and>
   NextServer \<lparr>servers =
      [\<lparr>URL = ''http://a'', Weight = 5, ActiveConnections = 0, RequestCount = 0,
        IsHealthy = True, FailureCount = 0, LastCheckTime = 0\<rparr>],
      totalRequests = 0\<rparr> = Some 0"
proof -
  let ?e = "\<lparr>servers = [], totalRequests = 0\<rparr>"
  let ?n = "\<lparr>servers =
      [\<lparr>URL = ''http://a'', Weight = 0, ActiveConnections = 0, RequestCount = 0,
        IsHealthy = True, FailureCount = 0, LastCheckTime = 0\<rparr>,
       \<lparr>URL = ''http://b'', Weight = 3, ActiveConnections = 0, RequestCount = 0,
        IsHealthy = False, FailureCount = 2, LastCheckTime = 0\<rparr>],
      totalRequests = 0\<rparr>"
  let ?s = "\<lparr>servers =
      [\<lparr>URL = ''http://a'', Weight = 5, ActiveConnections = 0, RequestCount = 0,
        IsHealthy = True, FailureCount = 0, LastCheckTime = 0\<rparr>],
      totalRequests = 0\<rparr>"
  have 1: "NextServer ?e = None" using NextServer_none_iff_no_eligible [of ?e] by simp
  have 2: "NextServer ?n = None" using NextServer_none_iff_no_eligible [of ?n] by simp
  have "NextServer ?s \<noteq> None" using NextServer_none_iff_no_eligible [of ?s] by simp
  then obtain i where i: "NextServer ?s = Some i" by blast
  then have "i < length (servers ?s)" using NextServer_none_iff_no_eligible [of ?s] by blast
  then have 3: "NextServer ?s = Some 0" using i by simp
  show ?thesis using 1 2 3 by blast
qed

text \<open>
  C2, as the specification states it, does not hold for a pool whose only healthy
  server has weight 0: its ratio is the sentinel, and \<open>NextServer\<close> returns none.
\<close>

theorem NextServer_healthy_zero_weight_counterexample:
  "IsHealthy (servers \<lparr>servers =
      [\<lparr>URL = ''http://a'', Weight = 0, ActiveConnections = 0, RequestCount = 0,
        IsHealthy = True, FailureCount = 0, LastCheckTime = 0\<rparr>],
      totalRequests = 0\<rparr> ! 0) \<and>
   NextServer \<lparr>servers =
      [\<lparr>URL = ''http://a'', Weight = 0, ActiveConnections = 0, RequestCount = 0,
        IsHealthy = True, FailureCount = 0, LastCheckTime = 0\<rparr>],
      totalRequests = 0\<rparr> = None"
  by (simp add: NextServer_def Ratio_def)

text \<open>
  C2, amended. For every pool that holds at least one healthy server of nonzero weight,
  \<open>NextServer\<close> returns a server, never none; the server returned has the least ratio
  of the pool, and every server before it in the pool has a strictly greater ratio:
  among the servers tied for the minimum it is the earliest.
\<close>

theorem NextServer_minimum:
  assumes "\<exists>s \<in> set (servers wlc). IsHealthy s \<and> Weight s \<noteq> 0"
  shows "\<exists>j < length (servers wlc). NextServer wlc = Some j \<and>
           (\<forall>k < length (servers wlc). Ratio (servers wlc ! j) \<le> Ratio (servers wlc ! k)) \<and>
           (\<forall>k < j. Ratio (servers wlc ! j) < Ratio (servers wlc ! k))"
proof -
  from assms have "\<not> (\<forall>s \<in> set (servers wlc). \<not> Ratio s < 10 ^ 18)"
    by (simp add: Ratio_less_numeral_iff)
  then have "NextServer wlc \<noteq> None" by (simp only: NextServer_None_iff not_False_eq_True)
  then obtain j where j: "NextServer wlc = Some j" by blast
  from NextServer_Some [OF j] j show ?thesis by blast
qed

theorem NextServer_minimum_witness:
  "NextServer \<lparr>servers =
      [\<lparr>URL = ''http://a'', Weight = 1, ActiveConnections = 2, RequestCount = 2,
        IsHealthy = True, FailureCount = 0, LastCheckTime = 0\<rparr>,
       \<lparr>URL = ''http://b'', Weight = 2, ActiveConnections = 1, RequestCount = 1,
        IsHealthy = True, FailureCount = 0, LastCheckTime = 0\<rparr>,
       \<lparr>URL = ''http://c'', Weight = 2, ActiveConnections = 1, RequestCount = 1,
        IsHealthy = True, FailureCount = 0, LastCheckTime = 0\<rparr>],
      totalRequests = 4\<rparr> = Some 1"
proof -
  let ?a = "\<lparr>URL = ''http://a'', Weight = 1, ActiveConnections = 2, RequestCount = 2,
        IsHealthy = True, FailureCount = 0, LastCheckTime = 0\<rparr>"
  let ?b = "\<lparr>URL = ''http://b'', Weight = 2, ActiveConnections = 1, RequestCount = 1,
        IsHealthy = True, FailureCount = 0, LastCheckTime = 0\<rparr>"
  let ?c = "\<lparr>URL = ''http://c'', Weight = 2, ActiveConnections = 1, RequestCount = 1,
        IsHealthy = True, FailureCount = 0, LastCheckTime = 0\<rparr>"
  let ?p = "\<lparr>servers = [?a, ?b, ?c], totalRequests = 4\<rparr>"
  have ra: "Ratio ?a = 2" by code_simp
  have rb: "Ratio ?b = 1 / 2" by code_simp
  have rc: "Ratio ?c = 1 / 2" by code_simp
  have "\<exists>s \<in> set (servers ?p). IsHealthy s \<and> Weight s \<noteq> 0" by simp
  from NextServer_minimum [OF this]
  obtain j where j: "j < length (servers ?p)" "NextServer ?p = Some j"
    "\<forall>k < length (servers ?p). Ratio (servers ?p ! j) \<le> Ratio (servers ?p ! k)"
    "\<forall>k < j. Ratio (servers ?p ! j) < Ratio (servers ?p ! k)" by blast
  from j(1) have "j = 0 \<or> j = 1 \<or> j = 2" by auto
  moreover have "j \<noteq> 0"
  proof
    assume j0: "j = 0"
    from j(3) [rule_format, of 1] have "Ratio (servers ?p ! j) \<le> Ratio ?b" by simp
    with j0 have "Ratio ?a \<le> Ratio ?b" by simp
    with ra rb show False by simp
  qed
  moreover have "j \<noteq> 2"
  proof
    assume j2: "j = 2"
    from j(4) [rule_format, of 1] j2 have "Ratio (servers ?p ! j) < Ratio ?b" by simp
    with j2 have "Ratio ?c < Ratio ?b" by simp
    with rb rc show False by simp
  qed
  ultimately have "j = 1" by blast
  with j(2) show ?thesis by simp
qed

text \<open>
  C10. \<open>NewServer\<close> takes any weight: whenever the address parses, it returns a
  healthy server with exactly the weight given, with no check of the weight. \<open>Ratio\<close>
  treats only the weight 0 as a sentinel case. So a healthy server of negative weight
  with a positive number of active connections has a negative ratio, which is below the
  ratio of every server of positive weight whose connection count is not negative.
\<close>

theorem NewServer_any_weight:
  "(urlParse rawURL \<longrightarrow>
      (\<exists>s. NewServer urlParse now rawURL weight = Inr s \<and> Weight s = weight \<and> IsHealthy s)) \<and>
   (IsHealthy s \<longrightarrow> (Ratio s = 10 ^ 18 \<longleftrightarrow> Weight s = 0)) \<and>
   (IsHealthy s \<and> sint (Weight s) < 0 \<and> 0 < sint (ActiveConnections s) \<longrightarrow>
      Ratio s < 0 \<and>
      (\<forall>v :: Server. 0 < sint (Weight v) \<and> 0 \<le> sint (ActiveConnections v) \<longrightarrow> Ratio s < Ratio v))"
proof (intro conjI impI)
  assume "urlParse rawURL"
  then show "\<exists>s. NewServer urlParse now rawURL weight = Inr s \<and> Weight s = weight \<and> IsHealthy s"
    by (simp add: NewServer_def)
next
  assume h: "IsHealthy s"
  show "Ratio s = 10 ^ 18 \<longleftrightarrow> Weight s = 0"
  proof
    assume "Ratio s = 10 ^ 18"
    then have "\<not> Ratio s < 10 ^ 18" by simp
    then show "Weight s = 0" using h by (simp add: Ratio_less_numeral_iff)
  next
    assume "Weight s = 0"
    then show "Ratio s = 10 ^ 18" by (rule Ratio_zero_weight)
  qed
next
  assume a: "IsHealthy s \<and> sint (Weight s) < 0 \<and> 0 < sint (ActiveConnections s)"
  then have n: "Ratio s < 0" by (intro Ratio_negative) simp_all
  then show "Ratio s < 0" .
  show "\<forall>v :: Server. 0 < sint (Weight v) \<and> 0 \<le> sint (ActiveConnections v) \<longrightarrow> Ratio s < Ratio v"
  proof (intro allI impI)
    fix v :: Server assume "0 < sint (Weight v) \<and> 0 \<le> sint (ActiveConnections v)"
    then have "0 \<le> Ratio v" by (intro Ratio_nonneg) simp_all
    with n show "Ratio s < Ratio v" by linarith
  qed
qed

theorem NewServer_any_weight_witness:
  "NewServer (\<lambda>u. True) 0 ''http://a'' (- 2) =
     Inr \<lparr>URL = ''http://a'', Weight = - 2, ActiveConnections = 0, RequestCount = 0,
          IsHealthy = True, FailureCount = 0, LastCheckTime = 0\<rparr> \<and>
   Ratio \<lparr>URL = ''http://a'', Weight = - 2, ActiveConnections = 3, RequestCount = 3,
          IsHealthy = True, FailureCount = 0, LastCheckTime = 0\<rparr> < 0 \<and>
   Ratio \<lparr>URL = ''http://a'', Weight = - 2, ActiveConnections = 3, RequestCount = 3,
          IsHealthy = True, FailureCount = 0, LastCheckTime = 0\<rparr>
     < Ratio \<lparr>URL = ''http://b'', Weight = 1, ActiveConnections = 0, RequestCount = 0,
          IsHealthy = True, FailureCount = 0, LastCheckTime = 0\<rparr>"
proof -
  let ?s = "\<lparr>URL = ''http://a'', Weight = - 2, ActiveConnections = 3, RequestCount = 3,
          IsHealthy = True, FailureCount = 0, LastCheckTime = 0\<rparr>"
  let ?v = "\<lparr>URL = ''http://b'', Weight = 1, ActiveConnections = 0, RequestCount = 0,
          IsHealthy = True, FailureCount = 0, LastCheckTime = 0\<rparr>"
  have 1: "NewServer (\<lambda>u. True) 0 ''http://a'' (- 2) =
     Inr \<lparr>URL = ''http://a'', Weight = - 2, ActiveConnections = 0, RequestCount = 0,
          IsHealthy = True, FailureCount = 0, LastCheckTime = 0\<rparr>"
    using NewServer_any_weight [of "\<lambda>u. True" "''http://a''" 0 "- 2"]
    by (simp add: NewServer_def)
  have h: "IsHealthy ?s \<and> sint (Weight ?s) < 0 \<and> 0 < sint (ActiveConnections ?s)"
    by simp
  have v: "0 < sint (Weight ?v) \<and> 0 \<le> sint (ActiveConnections ?v)" by simp
  from h have 2: "Ratio ?s < 0"
    using NewServer_any_weight [of "\<lambda>u. True" "''http://a''" 0 "- 2" ?s] by blast
  from h v have 3: "Ratio ?s < Ratio ?v"
    using NewServer_any_weight [of "\<lambda>u. True" "''http://a''" 0 "- 2" ?s] by blast
  show ?thesis using 1 2 3 by blast
qed

section \<open>Health checks\<close>

lemma performHealthChecks_loop_length [simp]:
  "length (performHealthChecks_loop env n xs) = length xs"
  by (induction xs arbitrary: n) simp_all

lemma performHealthChecks_loop_nth:
  "i < length xs \<Longrightarrow> performHealthChecks_loop env n xs ! i = check_server (env (n + i)) (xs ! i)"
proof (induction xs arbitrary: n i)
  case Nil
  then show ?case by simp
next
  case (Cons x xs)
  then show ?case by (cases i) simp_all
qed

lemma check_server_ok:
  "check_server (Status 200, now) s = s\<lparr>LastCheckTime := now, FailureCount := 0, IsHealthy := True\<rparr>"
  by (simp add: check_server_def HealthCheck_def)

lemma check_server_failed:
  "resp \<noteq> Status 200 \<Longrightarrow>
   check_server (resp, now) s =
     s\<lparr>LastCheckTime := now, FailureCount := FailureCount s + 1, IsHealthy := False\<rparr>"
  by (cases resp) (simp_all add: check_server_def HealthCheck_def)

text \<open>
  C5. A probe of a server: \<open>HealthCheck\<close> returns no error exactly when the request
  got a response with status 200. Then \<open>performHealthChecks\<close> leaves the server healthy
  with a failure count of 0; after a transport error or any other status the failure
  count is one more than before and the server is unhealthy. In both cases the time of
  the last check is the clock reading of this probe. \<open>performHealthChecks\<close> does this
  to every server of the pool, each with its own probe.
\<close>

theorem performHealthChecks_probe:
  "(fst (HealthCheck resp now s) = None \<longleftrightarrow> resp = Status 200) \<and>
   LastCheckTime (check_server (resp, now) s) = now \<and>
   (resp = Status 200 \<longrightarrow>
      IsHealthy (check_server (resp, now) s) \<and> FailureCount (check_server (resp, now) s) = 0) \<and>
   (resp \<noteq> Status 200 \<longrightarrow>
      \<not> IsHealthy (check_server (resp, now) s) \<and>
      FailureCount (check_server (resp, now) s) = FailureCount s + 1) \<and>
   length (servers (performHealthChecks env wlc)) = length (servers wlc) \<and>
   (\<forall>i < length (servers wlc).
      servers (performHealthChecks env wlc) ! i = check_server (env i) (servers wlc ! i))"
proof (intro conjI impI allI)
  show "fst (HealthCheck resp now s) = None \<longleftrightarrow> resp = Status 200"
    by (cases resp) (simp_all add: HealthCheck_def Let_def)
  show "LastCheckTime (check_server (resp, now) s) = now"
    by (cases "resp = Status 200") (simp_all add: check_server_ok check_server_failed)
  show "length (servers (performHealthChecks env wlc)) = length (servers wlc)"
    by (simp add: performHealthChecks_def)
next
  assume "resp = Status 200"
  then show "IsHealthy (check_server (resp, now) s)" "FailureCount (check_server (resp, now) s) = 0"
    by (simp_all add: check_server_ok)
next
  assume "resp \<noteq> Status 200"
  then show "\<not> IsHealthy (check_server (resp, now) s)"
    "FailureCount (check_server (resp, now) s) = FailureCount s + 1"
    by (simp_all add: check_server_failed)
next
  fix i assume "i < length (servers wlc)"
  then show "servers (performHealthChecks env wlc) ! i = check_server (env i) (servers wlc ! i)"
    by (simp add: performHealthChecks_def performHealthChecks_loop_nth)
qed

theorem performHealthChecks_probe_witness:
  "servers (performHealthChecks (\<lambda>i. if i = 0 then (Status 200, 77) else (Status 503, 78))
     \<lparr>servers =
        [\<lparr>URL = ''http://a'', Weight = 1, ActiveConnections = 0, RequestCount = 0,
          IsHealthy = False, FailureCount = 3, LastCheckTime = 5\<rparr>,
         \<lparr>URL = ''http://b'', Weight = 1, ActiveConnections = 0, RequestCount = 0,
          IsHealthy = True, FailureCount = 0, LastCheckTime = 5\<rparr>],
      totalRequests = 0\<rparr>) =
     [\<lparr>URL = ''http://a'', Weight = 1, ActiveConnections = 0, RequestCount = 0,
       IsHealthy = True, FailureCount = 0, LastCheckTime = 77\<rparr>,
      \<lparr>URL = ''http://b'', Weight = 1, ActiveConnections = 0, RequestCount = 0,
       IsHealthy = False, FailureCount = 1, LastCheckTime = 78\<rparr>]"
proof -
  let ?env = "\<lambda>i::nat. if i = 0 then (Status 200, 77 :: 64 word) else (Status 503, 78)"
  let ?a = "\<lparr>URL = ''http://a'', Weight = 1, ActiveConnections = 0, RequestCount = 0,
          IsHealthy = False, FailureCount = 3, LastCheckTime = 5\<rparr>"
  let ?b = "\<lparr>URL = ''http://b'', Weight = 1, ActiveConnections = 0, RequestCount = 0,
          IsHealthy = True, FailureCount = 0, LastCheckTime = 5\<rparr>"
  let ?p = "\<lparr>servers = [?a, ?b], totalRequests = 0\<rparr>"
  note t = performHealthChecks_probe [of "Status 200" 77 ?a ?env ?p]
  have l: "length (servers (performHealthChecks ?env ?p)) = 2" using t by simp
  have 0: "servers (performHealthChecks ?env ?p) ! 0 = check_server (?env 0) ?a"
    using t by simp
  have 1: "servers (performHealthChecks ?env ?p) ! 1 = check_server (?env 1) ?b"
    using t by simp
  have "servers (performHealthChecks ?env ?p) =
          [check_server (?env 0) ?a, check_server (?env 1) ?b]"
    using l 0 1 by (intro nth_equalityI) (auto simp: less_Suc_eq numeral_2_eq_2)
  then show ?thesis by (simp add: check_server_def HealthCheck_def)
qed

section \<open>Requests\<close>

text \<open>
  C4. When the selection gave none, or gave a server whose health flag reads false,
  \<open>ServeHTTP\<close> answers 503 (service unavailable) and the state after the call is the
  state before it: no field of any server and no pool-wide counter has changed. In
  particular this is so for a request on an ordinary path when \<open>NextServer\<close> returns
  none.
\<close>

theorem ServeHTTP_unavailable:
  "(server = None \<or> (\<exists>i. server = Some i \<and> \<not> IsHealthy (servers wlc ! i)) \<longrightarrow>
      ServeHTTP_selected server forward wlc =
        (Text 503 ''Service Unavailable: No healthy backend servers available.'', wlc)) \<and>
   (path \<noteq> ''/health'' \<and> path \<noteq> ''/healthz'' \<and> path \<noteq> ''/metrics'' \<and> NextServer wlc = None \<longrightarrow>
      ServeHTTP path forward wlc =
        (Text 503 ''Service Unavailable: No healthy backend servers available.'', wlc))"
proof (intro conjI impI)
  assume "server = None \<or> (\<exists>i. server = Some i \<and> \<not> IsHealthy (servers wlc ! i))"
  then show "ServeHTTP_selected server forward wlc =
        (Text 503 ''Service Unavailable: No healthy backend servers available.'', wlc)"
  proof
    assume "server = None"
    then show ?thesis by (simp add: ServeHTTP_selected_def)
  next
    assume "\<exists>i. server = Some i \<and> \<not> IsHealthy (servers wlc ! i)"
    then obtain i where "server = Some i" "\<not> IsHealthy (servers wlc ! i)" by blast
    then show ?thesis by (simp add: ServeHTTP_selected_def)
  qed
next
  assume "path \<noteq> ''/health'' \<and> path \<noteq> ''/healthz'' \<and> path \<noteq> ''/metrics'' \<and> NextServer wlc = None"
  then show "ServeHTTP path forward wlc =
        (Text 503 ''Service Unavailable: No healthy backend servers available.'', wlc)"
    by (simp add: ServeHTTP_def ServeHTTP_selected_def)
qed

theorem ServeHTTP_unavailable_witness:
  "ServeHTTP ''/index.html'' (\<lambda>u. Forwarded 200)
     \<lparr>servers =
        [\<lparr>URL = ''http://a'', Weight = 1, ActiveConnections = 0, RequestCount = 7,
          IsHealthy = False, FailureCount = 3, LastCheckTime = 5\<rparr>],
      totalRequests = 7\<rparr> =
     (Text 503 ''Service Unavailable: No healthy backend servers available.'',
      \<lparr>servers =
        [\<lparr>URL = ''http://a'', Weight = 1, ActiveConnections = 0, RequestCount = 7,
          IsHealthy = False, FailureCount = 3, LastCheckTime = 5\<rparr>],
      totalRequests = 7\<rparr>) \<and>
   ServeHTTP_selected (Some 0) (\<lambda>u. Forwarded 200)
     \<lparr>servers =
        [\<lparr>URL = ''http://a'', Weight = 1, ActiveConnections = 0, RequestCount = 7,
          IsHealthy = False, FailureCount = 3, LastCheckTime = 5\<rparr>],
      totalRequests = 7\<rparr> =
     (Text 503 ''Service Unavailable: No healthy backend servers available.'',
      \<lparr>servers =
        [\<lparr>URL = ''http://a'', Weight = 1, ActiveConnections = 0, RequestCount = 7,
          IsHealthy = False, FailureCount = 3, LastCheckTime = 5\<rparr>],
      totalRequests = 7\<rparr>)"
proof -
  let ?p = "\<lparr>servers =
        [\<lparr>URL = ''http://a'', Weight = 1, ActiveConnections = 0, RequestCount = 7,
          IsHealthy = False, FailureCount = 3, LastCheckTime = 5\<rparr>],
      totalRequests = 7\<rparr>"
  have n: "NextServer ?p = None" by (simp add: NextServer_def Ratio_def)
  have 1: "ServeHTTP ''/index.html'' (\<lambda>u. Forwarded 200) ?p =
      (Text 503 ''Service Unavailable: No healthy backend servers available.'', ?p)"
    using ServeHTTP_unavailable [of None ?p "\<lambda>u. Forwarded 200" "''/index.html''"] n by simp
  have 2: "ServeHTTP_selected (Some 0) (\<lambda>u. Forwarded 200) ?p =
      (Text 503 ''Service Unavailable: No healthy backend servers available.'', ?p)"
    using ServeHTTP_unavailable [of "Some 0" ?p "\<lambda>u. Forwarded 200" "''/index.html''"] by simp
  show ?thesis using 1 2 by blast
qed

subsection \<open>The counters of a dispatched request\<close>

lemma dispatch_begin_length [simp]: "length (servers (dispatch_begin i wlc)) = length (servers wlc)"
  by (simp add: dispatch_begin_def Let_def)

lemma dispatch_end_length [simp]: "length (servers (dispatch_end i wlc)) = length (servers wlc)"
  by (simp add: dispatch_end_def Let_def)

lemma dispatch_begin_nth:
  "i < length (servers wlc) \<Longrightarrow>
   servers (dispatch_begin i wlc) ! i =
     (servers wlc ! i)\<lparr>ActiveConnections := ActiveConnections (servers wlc ! i) + 1,
                       RequestCount := RequestCount (servers wlc ! i) + 1\<rparr>"
  by (simp add: dispatch_begin_def Let_def)

lemma dispatch_end_nth:
  "i < length (servers wlc) \<Longrightarrow>
   servers (dispatch_end i wlc) ! i =
     (servers wlc ! i)\<lparr>ActiveConnections := ActiveConnections (servers wlc ! i) - 1\<rparr>"
  by (simp add: dispatch_end_def Let_def)

lemma dispatch_begin_other:
  "j \<noteq> i \<Longrightarrow> servers (dispatch_begin i wlc) ! j = servers wlc ! j"
  by (simp add: dispatch_begin_def Let_def)

lemma dispatch_end_other:
  "j \<noteq> i \<Longrightarrow> servers (dispatch_end i wlc) ! j = servers wlc ! j"
  by (simp add: dispatch_end_def Let_def)

lemma dispatch_round_trip:
  assumes "i < length (servers wlc)"
  shows "dispatch_end i (dispatch_begin i wlc) =
           wlc\<lparr>servers := (servers wlc)[i := (servers wlc ! i)\<lparr>RequestCount := RequestCount (servers wlc ! i) + 1\<rparr>],
               totalRequests := totalRequests wlc + 1\<rparr>"
  using assms by (simp add: dispatch_end_def dispatch_begin_def Let_def)

lemma ServeHTTP_selected_dispatch:
  assumes "i < length (servers wlc)" "IsHealthy (servers wlc ! i)"
  shows "ServeHTTP_selected (Some i) forward wlc =
           (case forward (URL (servers wlc ! i)) of Forwarded status \<Rightarrow> Proxied status | ForwardPanic \<Rightarrow> Panicked,
            dispatch_end i (dispatch_begin i wlc))"
  using assms by (simp add: ServeHTTP_selected_def Let_def dispatch_begin_nth)

text \<open>The ratio does not read the request count, so a completed request leaves the selection as it was.\<close>

lemma Ratio_RequestCount [simp]: "Ratio (s\<lparr>RequestCount := n\<rparr>) = Ratio s"
  by (simp add: Ratio_def)

lemma NextServer_loop_cong:
  "map Ratio xs = map Ratio ys \<Longrightarrow> NextServer_loop xs i best r = NextServer_loop ys i best r"
proof (induction xs arbitrary: ys i best r)
  case Nil
  then show ?case by simp
next
  case (Cons x xs)
  then obtain y ys' where ys: "ys = y # ys'" by (cases ys) auto
  with Cons.prems have "Ratio x = Ratio y" "map Ratio xs = map Ratio ys'" by simp_all
  with Cons.IH [of ys'] show ?case by (simp add: ys Let_def)
qed

lemma NextServer_after_dispatch:
  assumes "i < length (servers wlc)"
  shows "NextServer (dispatch_end i (dispatch_begin i wlc)) = NextServer wlc"
proof -
  let ?xs = "servers wlc"
  let ?ys = "?xs[i := (?xs ! i)\<lparr>RequestCount := RequestCount (?xs ! i) + 1\<rparr>]"
  have "map Ratio ?ys = map Ratio ?xs"
    using assms by (simp add: map_update list_update_same_conv)
  then have "NextServer_loop ?ys 0 None (10 ^ 18) = NextServer_loop ?xs 0 None (10 ^ 18)"
    by (rule NextServer_loop_cong)
  then show ?thesis using assms by (simp add: dispatch_round_trip NextServer_def)
qed

lemma ServeHTTP_dispatch:
  assumes "path \<noteq> ''/health''" "path \<noteq> ''/healthz''" "path \<noteq> ''/metrics''"
    and "NextServer wlc = Some i"
  shows "ServeHTTP path forward wlc =
           (case forward (URL (servers wlc ! i)) of Forwarded status \<Rightarrow> Proxied status | ForwardPanic \<Rightarrow> Panicked,
            dispatch_end i (dispatch_begin i wlc))"
proof -
  from NextServer_Some [OF assms(4)]
  have "i < length (servers wlc)" "Ratio (servers wlc ! i) < 10 ^ 18" by simp_all
  then have "i < length (servers wlc)" "IsHealthy (servers wlc ! i)"
    by (simp_all add: Ratio_less_numeral_iff)
  then show ?thesis using assms by (simp add: ServeHTTP_def ServeHTTP_selected_dispatch)
qed

lemma ServeHTTP_fold:
  assumes "path \<noteq> ''/health''" "path \<noteq> ''/healthz''" "path \<noteq> ''/metrics''"
    and "NextServer wlc = Some i"
  shows "NextServer (fold (\<lambda>forward w. snd (ServeHTTP path forward w)) fs wlc) = Some i \<and>
         length (servers (fold (\<lambda>forward w. snd (ServeHTTP path forward w)) fs wlc)) = length (servers wlc) \<and>
         ActiveConnections (servers (fold (\<lambda>forward w. snd (ServeHTTP path forward w)) fs wlc) ! i)
           = ActiveConnections (servers wlc ! i) \<and>
         RequestCount (servers (fold (\<lambda>forward w. snd (ServeHTTP path forward w)) fs wlc) ! i)
           = RequestCount (servers wlc ! i) + of_nat (length fs)"
  using assms(4)
proof (induction fs arbitrary: wlc)
  case Nil
  then show ?case by simp
next
  case (Cons f fs)
  let ?w = "dispatch_end i (dispatch_begin i wlc)"
  from NextServer_Some [OF Cons.prems] have i: "i < length (servers wlc)" by simp
  have step: "snd (ServeHTTP path f wlc) = ?w"
    using ServeHTTP_dispatch [OF assms(1-3) Cons.prems] by simp
  have n: "NextServer ?w = Some i" using i Cons.prems by (simp add: NextServer_after_dispatch)
  have a: "ActiveConnections (servers ?w ! i) = ActiveConnections (servers wlc ! i)"
    and r: "RequestCount (servers ?w ! i) = RequestCount (servers wlc ! i) + 1"
    and l: "length (servers ?w) = length (servers wlc)"
    using i by (simp_all add: dispatch_round_trip)
  from Cons.IH [OF n] show ?case by (simp add: step a r l)
qed

text \<open>
  Requests that overlap in time: a schedule lists, in the order in which they happen,
  the increments of a request dispatched to server \<open>i\<close> (\<open>True\<close>) and the deferred
  decrements of such requests (\<open>False\<close>).
\<close>

lemma schedule_counters:
  assumes "i < length (servers wlc)"
  shows "ActiveConnections (servers (fold (\<lambda>b w. if b then dispatch_begin i w else dispatch_end i w) evs wlc) ! i)
           = ActiveConnections (servers wlc ! i) + of_nat (count_list evs True) - of_nat (count_list evs False) \<and>
         RequestCount (servers (fold (\<lambda>b w. if b then dispatch_begin i w else dispatch_end i w) evs wlc) ! i)
           = RequestCount (servers wlc ! i) + of_nat (count_list evs True)"
  using assms
proof (induction evs arbitrary: wlc)
  case Nil
  then show ?case by simp
next
  case (Cons b evs)
  show ?case
  proof (cases b)
    case True
    have "i < length (servers (dispatch_begin i wlc))" using Cons.prems by simp
    from Cons.IH [OF this] show ?thesis
      using True Cons.prems by (simp add: dispatch_begin_nth)
  next
    case False
    have "i < length (servers (dispatch_end i wlc))" using Cons.prems by simp
    from Cons.IH [OF this] show ?thesis
      using False Cons.prems by (simp add: dispatch_end_nth)
  qed
qed

text \<open>
  C3. A request on an ordinary path for which \<open>NextServer\<close> selects the server \<open>i\<close> is
  dispatched to it. While the forwarder runs the server's active connections are one
  more than before; when \<open>ServeHTTP\<close> returns, whatever the forwarder did (a
  response of any status, or a panic), they are back at their value and the server's
  request count is one more than before. So after \<open>N\<close> such requests, one after the
  other, the active connections are as before and the request count has grown by \<open>N\<close>;
  from counters at 0 the active connections are 0 and the request count is \<open>N\<close> (it is
  a 64-bit counter: for \<open>N < 2^64\<close>). The same holds when the requests overlap: in any
  schedule of increments and deferred decrements with as many decrements as increments.
\<close>

theorem ServeHTTP_counters:
  assumes "path \<noteq> ''/health''" "path \<noteq> ''/healthz''" "path \<noteq> ''/metrics''"
    and "NextServer wlc = Some i"
  shows "(ActiveConnections (servers (dispatch_begin i wlc) ! i) = ActiveConnections (servers wlc ! i) + 1) \<and>
    (ServeHTTP path forward wlc =
           (case forward (URL (servers wlc ! i)) of Forwarded status \<Rightarrow> Proxied status | ForwardPanic \<Rightarrow> Panicked,
            dispatch_end i (dispatch_begin i wlc))) \<and>
    (ActiveConnections (servers (snd (ServeHTTP path forward wlc)) ! i) = ActiveConnections (servers wlc ! i)) \<and>
    (RequestCount (servers (snd (ServeHTTP path forward wlc)) ! i) = RequestCount (servers wlc ! i) + 1) \<and>
    (ActiveConnections (servers (fold (\<lambda>forward w. snd (ServeHTTP path forward w)) fs wlc) ! i)
           = ActiveConnections (servers wlc ! i)) \<and>
    (RequestCount (servers (fold (\<lambda>forward w. snd (ServeHTTP path forward w)) fs wlc) ! i)
           = RequestCount (servers wlc ! i) + of_nat (length fs)) \<and>
    (ActiveConnections (servers wlc ! i) = 0 \<and> RequestCount (servers wlc ! i) = 0 \<and> length fs < 2 ^ 64 \<longrightarrow>
           ActiveConnections (servers (fold (\<lambda>forward w. snd (ServeHTTP path forward w)) fs wlc) ! i) = 0 \<and>
           unat (RequestCount (servers (fold (\<lambda>forward w. snd (ServeHTTP path forward w)) fs wlc) ! i)) = length fs) \<and>
    (count_list evs True = count_list evs False \<longrightarrow>
           ActiveConnections (servers (fold (\<lambda>b w. if b then dispatch_begin i w else dispatch_end i w) evs wlc) ! i)
             = ActiveConnections (servers wlc ! i) \<and>
           RequestCount (servers (fold (\<lambda>b w. if b then dispatch_begin i w else dispatch_end i w) evs wlc) ! i)
             = RequestCount (servers wlc ! i) + of_nat (count_list evs True))"
proof -
  from NextServer_Some [OF assms(4)] have i: "i < length (servers wlc)" by simp
  have c1: "ActiveConnections (servers (dispatch_begin i wlc) ! i) = ActiveConnections (servers wlc ! i) + 1"
    using i by (simp add: dispatch_begin_nth)
  have c2: "ServeHTTP path forward wlc =
           (case forward (URL (servers wlc ! i)) of Forwarded status \<Rightarrow> Proxied status | ForwardPanic \<Rightarrow> Panicked,
            dispatch_end i (dispatch_begin i wlc))"
    by (rule ServeHTTP_dispatch [OF assms])
  have c3: "ActiveConnections (servers (snd (ServeHTTP path forward wlc)) ! i) = ActiveConnections (servers wlc ! i)"
    using i by (simp add: c2 dispatch_round_trip)
  have c4: "RequestCount (servers (snd (ServeHTTP path forward wlc)) ! i) = RequestCount (servers wlc ! i) + 1"
    using i by (simp add: c2 dispatch_round_trip)
  note f = ServeHTTP_fold [OF assms, of fs]
  have c5: "ActiveConnections (servers (fold (\<lambda>forward w. snd (ServeHTTP path forward w)) fs wlc) ! i)
           = ActiveConnections (servers wlc ! i)"
    using f by blast
  have c6: "RequestCount (servers (fold (\<lambda>forward w. snd (ServeHTTP path forward w)) fs wlc) ! i)
           = RequestCount (servers wlc ! i) + of_nat (length fs)"
    using f by blast
  have c7: "ActiveConnections (servers wlc ! i) = 0 \<and> RequestCount (servers wlc ! i) = 0 \<and> length fs < 2 ^ 64 \<longrightarrow>
           ActiveConnections (servers (fold (\<lambda>forward w. snd (ServeHTTP path forward w)) fs wlc) ! i) = 0 \<and>
           unat (RequestCount (servers (fold (\<lambda>forward w. snd (ServeHTTP path forward w)) fs wlc) ! i)) = length fs"
  proof (intro impI)
    assume z: "ActiveConnections (servers wlc ! i) = 0 \<and> RequestCount (servers wlc ! i) = 0 \<and> length fs < 2 ^ 64"
    then have "unat (of_nat (length fs) :: 64 word) = length fs"
      by (simp add: unat_of_nat)
    then show "ActiveConnections (servers (fold (\<lambda>forward w. snd (ServeHTTP path forward w)) fs wlc) ! i) = 0 \<and>
           unat (RequestCount (servers (fold (\<lambda>forward w. snd (ServeHTTP path forward w)) fs wlc) ! i)) = length fs"
      using z by (simp only: c5 c6) simp
  qed
  have c8: "count_list evs True = count_list evs False \<longrightarrow>
           ActiveConnections (servers (fold (\<lambda>b w. if b then dispatch_begin i w else dispatch_end i w) evs wlc) ! i)
             = ActiveConnections (servers wlc ! i) \<and>
           RequestCount (servers (fold (\<lambda>b w. if b then dispatch_begin i w else dispatch_end i w) evs wlc) ! i)
             = RequestCount (servers wlc ! i) + of_nat (count_list evs True)"
    using schedule_counters [OF i, of evs] by simp
  show ?thesis by (intro conjI; fact)
qed

theorem ServeHTTP_counters_witness:
  "ActiveConnections (servers (fold (\<lambda>forward w. snd (ServeHTTP ''/api'' forward w))
      [\<lambda>u. Forwarded 200, \<lambda>u. ForwardPanic, \<lambda>u. Forwarded 502]
      \<lparr>servers =
         [\<lparr>URL = ''http://a'', Weight = 1, ActiveConnections = 0, RequestCount = 0,
           IsHealthy = True, FailureCount = 0, LastCheckTime = 0\<rparr>],
       totalRequests = 0\<rparr>) ! 0) = 0 \<and>
   RequestCount (servers (fold (\<lambda>forward w. snd (ServeHTTP ''/api'' forward w))
      [\<lambda>u. Forwarded 200, \<lambda>u. ForwardPanic, \<lambda>u. Forwarded 502]
      \<lparr>servers =
         [\<lparr>URL = ''http://a'', Weight = 1, ActiveConnections = 0, RequestCount = 0,
           IsHealthy = True, FailureCount = 0, LastCheckTime = 0\<rparr>],
       totalRequests = 0\<rparr>) ! 0) = 3 \<and>
   ServeHTTP ''/api'' (\<lambda>u. ForwardPanic)
      \<lparr>servers =
         [\<lparr>URL = ''http://a'', Weight = 1, ActiveConnections = 0, RequestCount = 0,
           IsHealthy = True, FailureCount = 0, LastCheckTime = 0\<rparr>],
       totalRequests = 0\<rparr> =
     (Panicked,
      \<lparr>servers =
         [\<lparr>URL = ''http://a'', Weight = 1, ActiveConnections = 0, RequestCount = 1,
           IsHealthy = True, FailureCount = 0, LastCheckTime = 0\<rparr>],
       totalRequests = 1\<rparr>)"
proof -
  let ?a = "\<lparr>URL = ''http://a'', Weight = 1, ActiveConnections = 0, RequestCount = 0,
           IsHealthy = True, FailureCount = 0, LastCheckTime = 0\<rparr>"
  let ?p = "\<lparr>servers = [?a], totalRequests = 0\<rparr>"
  let ?fs = "[\<lambda>u. Forwarded 200, \<lambda>u. ForwardPanic, \<lambda>u. Forwarded 502] :: (string \<Rightarrow> Forward) list"
  let ?r = "servers (fold (\<lambda>forward w. snd (ServeHTTP ''/api'' forward w)) ?fs ?p) ! 0"
  have n: "NextServer ?p = Some 0" by code_simp
  have p: "''/api'' \<noteq> ''/health''" "''/api'' \<noteq> ''/healthz''" "''/api'' \<noteq> ''/metrics''" by simp_all
  note t = ServeHTTP_counters [OF p n, where forward = "\<lambda>u. ForwardPanic" and fs = ?fs
      and evs = "[True, False]"]
  from t have "ServeHTTP ''/api'' (\<lambda>u. ForwardPanic) ?p =
      (case (\<lambda>u. ForwardPanic) (URL (servers ?p ! 0)) of Forwarded status \<Rightarrow> Proxied status
       | ForwardPanic \<Rightarrow> Panicked, dispatch_end 0 (dispatch_begin 0 ?p))"
    by (elim conjE) assumption
  moreover have "dispatch_end 0 (dispatch_begin 0 ?p) =
      \<lparr>servers =
         [\<lparr>URL = ''http://a'', Weight = 1, ActiveConnections = 0, RequestCount = 1,
           IsHealthy = True, FailureCount = 0, LastCheckTime = 0\<rparr>],
       totalRequests = 1\<rparr>"
    by (simp add: dispatch_begin_def dispatch_end_def)
  ultimately have 1: "ServeHTTP ''/api'' (\<lambda>u. ForwardPanic) ?p =
     (Panicked,
      \<lparr>servers =
         [\<lparr>URL = ''http://a'', Weight = 1, ActiveConnections = 0, RequestCount = 1,
           IsHealthy = True, FailureCount = 0, LastCheckTime = 0\<rparr>],
       totalRequests = 1\<rparr>)"
    by simp
  from t have "ActiveConnections ?r = ActiveConnections (servers ?p ! 0)"
    by (elim conjE) assumption
  then have 2: "ActiveConnections ?r = 0" by simp
  from t have "RequestCount ?r = RequestCount (servers ?p ! 0) + of_nat (length ?fs)"
    by (elim conjE) assumption
  then have 3: "RequestCount ?r = 3" by simp
  from 1 2 3 show ?thesis by (intro conjI)
qed

section \<open>The configuration\<close>

lemma Split_no_sep: "p \<in> set (Split s c) \<Longrightarrow> c \<notin> set p"
proof (induction s arbitrary: p)
  case Nil
  then show ?case by simp
next
  case (Cons x s)
  then show ?case by (cases "Split s c") (auto split: if_splits)
qed

lemma HasPrefix_set: "HasPrefix a p \<Longrightarrow> set p \<subseteq> set a"
proof -
  assume "HasPrefix a p"
  then have "p = take (length p) a" by (simp add: HasPrefix_def)
  then have "set p = set (take (length p) a)" by simp
  then show ?thesis using set_take_subset [of "length p" a] by simp
qed

lemma HasPrefix_slash:
  assumes "HasPrefix a ''http://'' \<or> HasPrefix a ''https://''"
  shows "CHR ''/'' \<in> set a"
  using assms HasPrefix_set [of a "''http://''"] HasPrefix_set [of a "''https://''"] by auto

lemma parse_entry_Inr:
  assumes "parse_entry urlParse now part = Inr s"
  shows "\<exists>addr ws w. Split part CHR ''/'' = [addr, ws] \<and> Atoi ws = Some w \<and> 1 \<le> w \<and>
           s = \<lparr>URL = ''http://'' @ addr, Weight = word_of_int w, ActiveConnections = 0,
                RequestCount = 0, IsHealthy = True, FailureCount = 0, LastCheckTime = now\<rparr>"
proof -
  from assms have l: "length (Split part CHR ''/'') = 2"
    by (auto simp: parse_entry_def Let_def split: if_splits)
  then obtain addr ws where sp: "Split part CHR ''/'' = [addr, ws]"
    by (cases "Split part CHR ''/''"; cases "tl (Split part CHR ''/'')") auto
  then have "addr \<in> set (Split part CHR ''/'')" by simp
  then have "CHR ''/'' \<notin> set addr" by (rule Split_no_sep)
  then have np: "\<not> HasPrefix addr ''http://''" "\<not> HasPrefix addr ''https://''"
    using HasPrefix_slash [of addr] by auto
  from assms sp np obtain w where w: "Atoi ws = Some w" "1 \<le> w"
    and n: "NewServer urlParse now (''http://'' @ addr) (word_of_int w) = Inr s"
    by (auto simp: parse_entry_def Let_def split: option.splits if_splits)
  from n have "s = \<lparr>URL = ''http://'' @ addr, Weight = word_of_int w, ActiveConnections = 0,
                RequestCount = 0, IsHealthy = True, FailureCount = 0, LastCheckTime = now\<rparr>"
    by (auto simp: NewServer_def split: if_splits)
  with sp w show ?thesis by blast
qed

lemma parse_entry_bad_weight:
  assumes "Split part CHR ''/'' = [addr, ws]" "Atoi ws = None \<or> (\<exists>w. Atoi ws = Some w \<and> w < 1)"
  shows "\<exists>err. parse_entry urlParse now part = Inl err"
  using assms by (auto simp: parse_entry_def Let_def)

lemma entries_Nil [simp]: "entries [] = []"
  by (simp add: entries_def)

lemma entries_Cons:
  "entries (part0 # parts) = (if TrimSpace part0 = [] then entries parts else TrimSpace part0 # entries parts)"
  by (simp add: entries_def)

lemma parseServerInput_loop_shape:
  assumes "parseServerInput_loop urlParse clock parts acc = (res, c)"
  shows "\<exists>ss. c = acc @ ss \<and> length ss \<le> length (entries parts) \<and>
           (\<forall>j < length ss. parse_entry urlParse (clock (length acc + j)) (entries parts ! j) = Inr (ss ! j)) \<and>
           (\<forall>srvs. res = Inr srvs \<longrightarrow> srvs = c \<and> length ss = length (entries parts)) \<and>
           (\<forall>err. res = Inl err \<longrightarrow> length ss < length (entries parts) \<and>
                parse_entry urlParse (clock (length acc + length ss)) (entries parts ! length ss) = Inl err)"
  using assms
proof (induction parts arbitrary: acc)
  case Nil
  then show ?case by auto
next
  case (Cons part0 parts)
  show ?case
  proof (cases "TrimSpace part0 = []")
    case True
    with Cons.prems have "parseServerInput_loop urlParse clock parts acc = (res, c)" by simp
    from Cons.IH [OF this] show ?thesis using True by (simp add: entries_Cons)
  next
    case False
    note ne = False
    show ?thesis
    proof (cases "parse_entry urlParse (clock (length acc)) (TrimSpace part0)")
      case (Inl err)
      with Cons.prems ne have "res = Inl err" "c = acc" by simp_all
      then show ?thesis using ne Inl by (intro exI [of _ "[]"]) (simp add: entries_Cons)
    next
      case (Inr server)
      with Cons.prems ne
      have "parseServerInput_loop urlParse clock parts (acc @ [server]) = (res, c)" by simp
      from Cons.IH [OF this] obtain ss where ss: "c = (acc @ [server]) @ ss"
        "length ss \<le> length (entries parts)"
        "\<forall>j < length ss. parse_entry urlParse (clock (length (acc @ [server]) + j)) (entries parts ! j) = Inr (ss ! j)"
        "\<forall>srvs. res = Inr srvs \<longrightarrow> srvs = c \<and> length ss = length (entries parts)"
        "\<forall>err. res = Inl err \<longrightarrow> length ss < length (entries parts) \<and>
             parse_entry urlParse (clock (length (acc @ [server]) + length ss)) (entries parts ! length ss) = Inl err"
        by blast
      have e: "entries (part0 # parts) = TrimSpace part0 # entries parts"
        using ne by (simp add: entries_Cons)
      have 1: "c = acc @ (server # ss)" using ss(1) by simp
      have 2: "length (server # ss) \<le> length (entries (part0 # parts))"
        using ss(2) by (simp add: e)
      have 3: "\<forall>j < length (server # ss). parse_entry urlParse (clock (length acc + j))
                 (entries (part0 # parts) ! j) = Inr ((server # ss) ! j)"
      proof (intro allI impI)
        fix j assume j: "j < length (server # ss)"
        show "parse_entry urlParse (clock (length acc + j))
                 (entries (part0 # parts) ! j) = Inr ((server # ss) ! j)"
        proof (cases j)
          case 0
          then show ?thesis using Inr by (simp add: e)
        next
          case (Suc k)
          then have "k < length ss" using j by simp
          with ss(3) have "parse_entry urlParse (clock (length (acc @ [server]) + k)) (entries parts ! k) = Inr (ss ! k)"
            by blast
          then show ?thesis using Suc by (simp add: e)
        qed
      qed
      have 4: "\<forall>srvs. res = Inr srvs \<longrightarrow> srvs = c \<and> length (server # ss) = length (entries (part0 # parts))"
        using ss(4) by (simp add: e)
      have 5: "\<forall>err. res = Inl err \<longrightarrow> length (server # ss) < length (entries (part0 # parts)) \<and>
             parse_entry urlParse (clock (length acc + length (server # ss)))
               (entries (part0 # parts) ! length (server # ss)) = Inl err"
        using ss(5) by (simp add: e)
      from 1 2 3 4 5 show ?thesis by blast
    qed
  qed
qed

lemma parseServerInput_shape:
  assumes "parseServerInput urlParse clock input = (res, c)"
  shows "length c \<le> length (entries (Split (TrimSpace input) CHR '','')) \<and>
         (\<forall>j < length c. parse_entry urlParse (clock j) (entries (Split (TrimSpace input) CHR '','') ! j) = Inr (c ! j)) \<and>
         (\<forall>srvs. res = Inr srvs \<longrightarrow>
            srvs = c \<and> srvs \<noteq> [] \<and> length c = length (entries (Split (TrimSpace input) CHR '',''))) \<and>
         (\<forall>err. res = Inl err \<longrightarrow>
            (err = NoServers \<and> c = [] \<and> entries (Split (TrimSpace input) CHR '','') = []) \<or>
            (length c < length (entries (Split (TrimSpace input) CHR '','')) \<and>
             parse_entry urlParse (clock (length c)) (entries (Split (TrimSpace input) CHR '','') ! length c) = Inl err))"
proof -
  let ?parts = "Split (TrimSpace input) CHR '',''"
  obtain res0 c0 where l: "parseServerInput_loop urlParse clock ?parts [] = (res0, c0)"
    by (cases "parseServerInput_loop urlParse clock ?parts []")
  from assms l have c: "c = c0"
    by (auto simp: parseServerInput_def Let_def split: sum.splits if_splits)
  from assms l have r: "res = (case res0 of Inl err \<Rightarrow> Inl err
                               | Inr srvs \<Rightarrow> if srvs = [] then Inl NoServers else Inr srvs)"
    by (auto simp: parseServerInput_def Let_def split: sum.splits if_splits)
  from parseServerInput_loop_shape [OF l] obtain ss where ss: "c0 = [] @ ss"
    "length ss \<le> length (entries ?parts)"
    "\<forall>j < length ss. parse_entry urlParse (clock (length ([] :: Server list) + j)) (entries ?parts ! j) = Inr (ss ! j)"
    "\<forall>srvs. res0 = Inr srvs \<longrightarrow> srvs = c0 \<and> length ss = length (entries ?parts)"
    "\<forall>err. res0 = Inl err \<longrightarrow> length ss < length (entries ?parts) \<and>
       parse_entry urlParse (clock (length ([] :: Server list) + length ss)) (entries ?parts ! length ss) = Inl err"
    by blast
  have cs: "c = ss" using c ss(1) by simp
  show ?thesis
  proof (cases res0)
    case (Inl err)
    then have "res = Inl err" using r by simp
    then show ?thesis using ss(2,3,5) Inl cs by simp
  next
    case (Inr srvs)
    then have e: "srvs = c" "length c = length (entries ?parts)" using ss(4) cs c by simp_all
    show ?thesis
    proof (cases "srvs = []")
      case True
      then have "res = Inl NoServers" using r Inr by simp
      then show ?thesis using True e ss(3) cs by simp
    next
      case False
      then have "res = Inr srvs" using r Inr by simp
      then show ?thesis using False e ss(3) cs by simp
    qed
  qed
qed

text \<open>
  C9, as the specification states it, does not hold: the entries are handled one after
  the other, so when the second entry has the weight 0 the server of the first entry
  has been constructed before the input is rejected.
\<close>

theorem parseServerInput_constructs_counterexample:
  "parseServerInput (\<lambda>u. True) (\<lambda>k. 0) ''a/1,b/0'' =
     (Inl (InvalidWeight ''http://b''),
      [\<lparr>URL = ''http://a'', Weight = 1, ActiveConnections = 0, RequestCount = 0,
        IsHealthy = True, FailureCount = 0, LastCheckTime = 0\<rparr>])"
  by code_simp

text \<open>
  C9, amended. \<open>parseServerInput\<close> returns an error and no server for an input with
  an entry whose weight is not an integer at least 1, and for an input with no entry
  at all. The servers are constructed entry by entry: at an error, the servers of the
  entries before the rejected one have been constructed, none for the rejected entry
  and none for a later one; with no entry none is constructed. On success there is one
  server for each entry, in order, with the weight of the entry and with the address of
  the entry after \<open>http://\<close>: the address of an accepted entry has no scheme, and
  \<open>http://\<close> is put before it when the server is made.
\<close>

theorem parseServerInput_rejects:
  assumes "parseServerInput urlParse clock input = (res, constructed)"
  shows "((\<exists>e \<in> set (entries (Split (TrimSpace input) CHR '','')). \<exists>addr ws.
             Split e CHR ''/'' = [addr, ws] \<and> (Atoi ws = None \<or> (\<exists>w. Atoi ws = Some w \<and> w < 1)))
          \<longrightarrow> (\<exists>err. res = Inl err)) \<and>
         (entries (Split (TrimSpace input) CHR '','') = [] \<longrightarrow> res = Inl NoServers \<and> constructed = []) \<and>
         (\<forall>err. res = Inl err \<and> entries (Split (TrimSpace input) CHR '','') \<noteq> [] \<longrightarrow>
            length constructed < length (entries (Split (TrimSpace input) CHR '','')) \<and>
            parse_entry urlParse (clock (length constructed))
              (entries (Split (TrimSpace input) CHR '','') ! length constructed) = Inl err \<and>
            (\<forall>j < length constructed.
               parse_entry urlParse (clock j) (entries (Split (TrimSpace input) CHR '','') ! j)
                 = Inr (constructed ! j))) \<and>
         (\<forall>srvs. res = Inr srvs \<longrightarrow>
            srvs \<noteq> [] \<and> srvs = constructed \<and>
            length srvs = length (entries (Split (TrimSpace input) CHR '','')) \<and>
            (\<forall>j < length srvs. \<exists>addr ws w.
               Split (entries (Split (TrimSpace input) CHR '','') ! j) CHR ''/'' = [addr, ws] \<and>
               Atoi ws = Some w \<and> 1 \<le> w \<and>
               \<not> HasPrefix addr ''http://'' \<and> \<not> HasPrefix addr ''https://'' \<and>
               srvs ! j = \<lparr>URL = ''http://'' @ addr, Weight = word_of_int w, ActiveConnections = 0,
                           RequestCount = 0, IsHealthy = True, FailureCount = 0,
                           LastCheckTime = clock j\<rparr>))"
proof -
  let ?es = "entries (Split (TrimSpace input) CHR '','')"
  note sh = parseServerInput_shape [OF assms]
  from sh have len: "length constructed \<le> length ?es"
    and pre: "\<forall>j < length constructed. parse_entry urlParse (clock j) (?es ! j) = Inr (constructed ! j)"
    and ok: "\<forall>srvs. res = Inr srvs \<longrightarrow> srvs = constructed \<and> srvs \<noteq> [] \<and> length constructed = length ?es"
    and bad: "\<forall>err. res = Inl err \<longrightarrow>
            (err = NoServers \<and> constructed = [] \<and> ?es = []) \<or>
            (length constructed < length ?es \<and>
             parse_entry urlParse (clock (length constructed)) (?es ! length constructed) = Inl err)"
    by blast+
  have entry: "\<exists>addr ws w. Split (?es ! j) CHR ''/'' = [addr, ws] \<and> Atoi ws = Some w \<and> 1 \<le> w \<and>
               \<not> HasPrefix addr ''http://'' \<and> \<not> HasPrefix addr ''https://'' \<and>
               constructed ! j = \<lparr>URL = ''http://'' @ addr, Weight = word_of_int w, ActiveConnections = 0,
                           RequestCount = 0, IsHealthy = True, FailureCount = 0,
                           LastCheckTime = clock j\<rparr>"
    if j: "j < length constructed" for j
  proof -
    from pre j have p: "parse_entry urlParse (clock j) (?es ! j) = Inr (constructed ! j)" by blast
    from parse_entry_Inr [OF p] obtain addr ws w where a: "Split (?es ! j) CHR ''/'' = [addr, ws]"
      "Atoi ws = Some w" "1 \<le> w"
      "constructed ! j = \<lparr>URL = ''http://'' @ addr, Weight = word_of_int w, ActiveConnections = 0,
                           RequestCount = 0, IsHealthy = True, FailureCount = 0,
                           LastCheckTime = clock j\<rparr>" by blast
    from a(1) have "addr \<in> set (Split (?es ! j) CHR ''/'')" by simp
    then have "CHR ''/'' \<notin> set addr" by (rule Split_no_sep)
    then have "\<not> HasPrefix addr ''http://''" "\<not> HasPrefix addr ''https://''"
      using HasPrefix_slash [of addr] by auto
    with a show ?thesis by blast
  qed
  have c1: "(\<exists>e \<in> set ?es. \<exists>addr ws.
             Split e CHR ''/'' = [addr, ws] \<and> (Atoi ws = None \<or> (\<exists>w. Atoi ws = Some w \<and> w < 1)))
          \<longrightarrow> (\<exists>err. res = Inl err)"
  proof
    assume "\<exists>e \<in> set ?es. \<exists>addr ws.
             Split e CHR ''/'' = [addr, ws] \<and> (Atoi ws = None \<or> (\<exists>w. Atoi ws = Some w \<and> w < 1))"
    then obtain j addr ws where j: "j < length ?es" "Split (?es ! j) CHR ''/'' = [addr, ws]"
      "Atoi ws = None \<or> (\<exists>w. Atoi ws = Some w \<and> w < 1)"
      by (auto simp: in_set_conv_nth)
    show "\<exists>err. res = Inl err"
    proof (cases res)
      case (Inl err)
      then show ?thesis by blast
    next
      case (Inr srvs)
      with ok have "length constructed = length ?es" by blast
      with j(1) have "j < length constructed" by simp
      from entry [OF this] j(2,3) show ?thesis by auto
    qed
  qed
  have c2: "?es = [] \<longrightarrow> res = Inl NoServers \<and> constructed = []"
  proof
    assume e: "?es = []"
    with len have c: "constructed = []" by simp
    show "res = Inl NoServers \<and> constructed = []"
    proof (cases res)
      case (Inl err)
      with bad e c show ?thesis by auto
    next
      case (Inr srvs)
      with ok c show ?thesis by auto
    qed
  qed
  have c3: "\<forall>err. res = Inl err \<and> ?es \<noteq> [] \<longrightarrow>
            length constructed < length ?es \<and>
            parse_entry urlParse (clock (length constructed)) (?es ! length constructed) = Inl err \<and>
            (\<forall>j < length constructed. parse_entry urlParse (clock j) (?es ! j) = Inr (constructed ! j))"
    using bad pre by blast
  have c4: "\<forall>srvs. res = Inr srvs \<longrightarrow>
            srvs \<noteq> [] \<and> srvs = constructed \<and> length srvs = length ?es \<and>
            (\<forall>j < length srvs. \<exists>addr ws w.
               Split (?es ! j) CHR ''/'' = [addr, ws] \<and>
               Atoi ws = Some w \<and> 1 \<le> w \<and>
               \<not> HasPrefix addr ''http://'' \<and> \<not> HasPrefix addr ''https://'' \<and>
               srvs ! j = \<lparr>URL = ''http://'' @ addr, Weight = word_of_int w, ActiveConnections = 0,
                           RequestCount = 0, IsHealthy = True, FailureCount = 0,
                           LastCheckTime = clock j\<rparr>)"
  proof (intro allI impI)
    fix srvs assume "res = Inr srvs"
    with ok have s: "srvs = constructed" "srvs \<noteq> []" "length constructed = length ?es" by blast+
    show "srvs \<noteq> [] \<and> srvs = constructed \<and> length srvs = length ?es \<and>
            (\<forall>j < length srvs. \<exists>addr ws w.
               Split (?es ! j) CHR ''/'' = [addr, ws] \<and>
               Atoi ws = Some w \<and> 1 \<le> w \<and>
               \<not> HasPrefix addr ''http://'' \<and> \<not> HasPrefix addr ''https://'' \<and>
               srvs ! j = \<lparr>URL = ''http://'' @ addr, Weight = word_of_int w, ActiveConnections = 0,
                           RequestCount = 0, IsHealthy = True, FailureCount = 0,
                           LastCheckTime = clock j\<rparr>)"
      using s entry by simp
  qed
  show ?thesis by (intro conjI; fact)
qed

theorem parseServerInput_rejects_witness:
  "fst (parseServerInput (\<lambda>u. True) (\<lambda>k. 0) ''a/1,b/0'') = Inl (InvalidWeight ''http://b'') \<and>
   parse_entry (\<lambda>u. True) 0 ''b/0'' = Inl (InvalidWeight ''http://b'') \<and>
   parseServerInput (\<lambda>u. True) (\<lambda>k. 0) '' ,  '' = (Inl NoServers, []) \<and>
   fst (parseServerInput (\<lambda>u. True) (\<lambda>k. 0) ''localhost:8081/5, localhost:8082/1\<newline>'') =
     Inr [\<lparr>URL = ''http://localhost:8081'', Weight = 5, ActiveConnections = 0, RequestCount = 0,
           IsHealthy = True, FailureCount = 0, LastCheckTime = 0\<rparr>,
          \<lparr>URL = ''http://localhost:8082'', Weight = 1, ActiveConnections = 0, RequestCount = 0,
           IsHealthy = True, FailureCount = 0, LastCheckTime = 0\<rparr>]"
proof -
  let ?a = "\<lparr>URL = ''http://a'', Weight = 1, ActiveConnections = 0, RequestCount = 0,
        IsHealthy = True, FailureCount = 0, LastCheckTime = 0\<rparr>"
  have r: "parseServerInput (\<lambda>u. True) (\<lambda>k. 0) ''a/1,b/0'' = (Inl (InvalidWeight ''http://b''), [?a])"
    by code_simp
  have es: "entries (Split (TrimSpace ''a/1,b/0'') CHR '','') = [''a/1'', ''b/0'']"
    by code_simp
  from parseServerInput_rejects [OF r]
  have 1: "parse_entry (\<lambda>u. True) 0 ''b/0'' = Inl (InvalidWeight ''http://b'')"
    by (simp add: es)
  obtain res c where e: "parseServerInput (\<lambda>u. True) (\<lambda>k. 0) '' ,  '' = (res, c)"
    by (cases "parseServerInput (\<lambda>u. True) (\<lambda>k. 0) '' ,  ''")
  have ee: "entries (Split (TrimSpace '' ,  '') CHR '','') = []" by code_simp
  from parseServerInput_rejects [OF e] ee have 2: "res = Inl NoServers \<and> c = []" by simp
  have 3: "fst (parseServerInput (\<lambda>u. True) (\<lambda>k. 0) ''localhost:8081/5, localhost:8082/1\<newline>'') =
     Inr [\<lparr>URL = ''http://localhost:8081'', Weight = 5, ActiveConnections = 0, RequestCount = 0,
           IsHealthy = True, FailureCount = 0, LastCheckTime = 0\<rparr>,
          \<lparr>URL = ''http://localhost:8082'', Weight = 1, ActiveConnections = 0, RequestCount = 0,
           IsHealthy = True, FailureCount = 0, LastCheckTime = 0\<rparr>]"
    by code_simp
  show ?thesis using r 1 2 3 e by simp
qed

section \<open>The pool-wide request counter\<close>

lemma sum_list_map_update:
  fixes f :: "'a \<Rightarrow> 'b::comm_ring"
  shows "i < length xs \<Longrightarrow> sum_list (map f (xs[i := x])) = sum_list (map f xs) - f (xs ! i) + f x"
proof (induction xs arbitrary: i)
  case Nil
  then show ?case by simp
next
  case (Cons y ys)
  then show ?case by (cases i) (simp_all add: algebra_simps)
qed

lemma check_server_RequestCount [simp]: "RequestCount (check_server env s) = RequestCount s"
proof (cases env)
  case (Pair resp now)
  then show ?thesis
    by (cases "resp = Status 200") (simp_all add: check_server_ok check_server_failed)
qed

lemma performHealthChecks_loop_RequestCount:
  "map RequestCount (performHealthChecks_loop env n xs) = map RequestCount xs"
  by (induction xs arbitrary: n) simp_all

lemma dispatch_begin_sum:
  assumes "i < length (servers wlc)"
  shows "sum_list (map RequestCount (servers (dispatch_begin i wlc)))
           = sum_list (map RequestCount (servers wlc)) + 1"
  using assms by (simp add: dispatch_begin_def Let_def sum_list_map_update)

lemma dispatch_end_sum:
  assumes "i < length (servers wlc)"
  shows "sum_list (map RequestCount (servers (dispatch_end i wlc)))
           = sum_list (map RequestCount (servers wlc))"
  using assms by (simp add: dispatch_end_def Let_def sum_list_map_update)

lemma dispatch_totalRequests [simp]:
  "totalRequests (dispatch_begin i wlc) = totalRequests wlc + 1"
  "totalRequests (dispatch_end i wlc) = totalRequests wlc"
  by (simp_all add: dispatch_begin_def dispatch_end_def Let_def)

lemma ServeHTTP_selected_agree:
  assumes "totalRequests wlc = sum_list (map RequestCount (servers wlc))"
    and "\<forall>i. server = Some i \<longrightarrow> i < length (servers wlc)"
  shows "totalRequests (snd (ServeHTTP_selected server forward wlc))
           = sum_list (map RequestCount (servers (snd (ServeHTTP_selected server forward wlc))))"
proof (cases server)
  case None
  then show ?thesis using assms(1) by (simp add: ServeHTTP_selected_def)
next
  case (Some i)
  with assms(2) have i: "i < length (servers wlc)" by simp
  show ?thesis
  proof (cases "IsHealthy (servers wlc ! i)")
    case False
    then show ?thesis using assms(1) Some by (simp add: ServeHTTP_selected_def)
  next
    case True
    have "snd (ServeHTTP_selected server forward wlc) = dispatch_end i (dispatch_begin i wlc)"
      using Some i True by (simp add: ServeHTTP_selected_dispatch)
    then show ?thesis using assms(1) i by (simp add: dispatch_end_sum dispatch_begin_sum)
  qed
qed

text \<open>
  C6. The pool-wide request counter equals the sum of the request counts of the servers
  (both are 64-bit counters, the sum is taken in 64 bits). This holds for the balancer
  made from servers whose request count is 0, as \<open>NewServer\<close> makes them and as
  \<open>parseServerInput\<close> returns them; and when it holds before \<open>ServeHTTP\<close> (on any
  path, whatever the forwarder does), before \<open>performHealthChecks\<close>, or before the
  increments or the deferred decrement of a dispatched request, then it holds after.
  The total that the metrics endpoint reports is therefore the sum of the servers'
  request counts.
\<close>

theorem totalRequests_sum:
  "((\<forall>s \<in> set srvs. RequestCount s = 0) \<longrightarrow>
      totalRequests (NewWeightedLeastConnection srvs)
        = sum_list (map RequestCount (servers (NewWeightedLeastConnection srvs)))) \<and>
   (NewServer urlParse now rawURL weight = Inr server \<longrightarrow> RequestCount server = 0) \<and>
   (fst (parseServerInput urlParse clock input) = Inr srvs \<longrightarrow>
      totalRequests (NewWeightedLeastConnection srvs)
        = sum_list (map RequestCount (servers (NewWeightedLeastConnection srvs)))) \<and>
   (totalRequests wlc = sum_list (map RequestCount (servers wlc)) \<longrightarrow>
      totalRequests (snd (ServeHTTP path forward wlc))
        = sum_list (map RequestCount (servers (snd (ServeHTTP path forward wlc)))) \<and>
      totalRequests (performHealthChecks env wlc)
        = sum_list (map RequestCount (servers (performHealthChecks env wlc))) \<and>
      (i < length (servers wlc) \<longrightarrow>
         totalRequests (dispatch_begin i wlc)
           = sum_list (map RequestCount (servers (dispatch_begin i wlc))) \<and>
         totalRequests (dispatch_end i wlc)
           = sum_list (map RequestCount (servers (dispatch_end i wlc)))) \<and>
      handleMetricsEndpoint wlc =
        Metrics (unat (sum_list (map RequestCount (servers wlc)))) (length (servers wlc))
          (map backend_line (servers wlc)))"
proof -
  have zero: "sum_list (map RequestCount xs) = 0" if "\<forall>s \<in> set xs. RequestCount s = 0" for xs
    using that by (induction xs) simp_all
  have c1: "(\<forall>s \<in> set srvs. RequestCount s = 0) \<longrightarrow>
      totalRequests (NewWeightedLeastConnection srvs)
        = sum_list (map RequestCount (servers (NewWeightedLeastConnection srvs)))"
    using zero [of srvs] by (simp add: NewWeightedLeastConnection_def)
  have c2: "NewServer urlParse now rawURL weight = Inr server \<longrightarrow> RequestCount server = 0"
    by (auto simp: NewServer_def split: if_splits)
  have c3: "fst (parseServerInput urlParse clock input) = Inr srvs \<longrightarrow>
      totalRequests (NewWeightedLeastConnection srvs)
        = sum_list (map RequestCount (servers (NewWeightedLeastConnection srvs)))"
  proof
    assume a: "fst (parseServerInput urlParse clock input) = Inr srvs"
    obtain c where p: "parseServerInput urlParse clock input = (Inr srvs, c)"
      using a by (cases "parseServerInput urlParse clock input") simp
    from parseServerInput_shape [OF p]
    have s: "srvs = c"
      and e: "\<forall>j < length c. parse_entry urlParse (clock j)
                 (entries (Split (TrimSpace input) CHR '','') ! j) = Inr (c ! j)"
      by blast+
    have "\<forall>s \<in> set srvs. RequestCount s = 0"
    proof
      fix x assume "x \<in> set srvs"
      then obtain j where j: "j < length c" "x = c ! j" using s by (auto simp: in_set_conv_nth)
      with e have "parse_entry urlParse (clock j) (entries (Split (TrimSpace input) CHR '','') ! j) = Inr x"
        by simp
      from parse_entry_Inr [OF this] show "RequestCount x = 0" by auto
    qed
    then show "totalRequests (NewWeightedLeastConnection srvs)
        = sum_list (map RequestCount (servers (NewWeightedLeastConnection srvs)))"
      using zero [of srvs] by (simp add: NewWeightedLeastConnection_def)
  qed
  have c4: "totalRequests wlc = sum_list (map RequestCount (servers wlc)) \<longrightarrow>
      totalRequests (snd (ServeHTTP path forward wlc))
        = sum_list (map RequestCount (servers (snd (ServeHTTP path forward wlc)))) \<and>
      totalRequests (performHealthChecks env wlc)
        = sum_list (map RequestCount (servers (performHealthChecks env wlc))) \<and>
      (i < length (servers wlc) \<longrightarrow>
         totalRequests (dispatch_begin i wlc)
           = sum_list (map RequestCount (servers (dispatch_begin i wlc))) \<and>
         totalRequests (dispatch_end i wlc)
           = sum_list (map RequestCount (servers (dispatch_end i wlc)))) \<and>
      handleMetricsEndpoint wlc =
        Metrics (unat (sum_list (map RequestCount (servers wlc)))) (length (servers wlc))
          (map backend_line (servers wlc))"
  proof (intro impI conjI)
    assume a: "totalRequests wlc = sum_list (map RequestCount (servers wlc))"
    have sel: "\<forall>k. NextServer wlc = Some k \<longrightarrow> k < length (servers wlc)"
      using NextServer_Some [of wlc] by blast
    show "totalRequests (snd (ServeHTTP path forward wlc))
        = sum_list (map RequestCount (servers (snd (ServeHTTP path forward wlc))))"
      using a ServeHTTP_selected_agree [OF a sel, of forward] by (simp add: ServeHTTP_def)
    show "totalRequests (performHealthChecks env wlc)
        = sum_list (map RequestCount (servers (performHealthChecks env wlc)))"
      using a by (simp add: performHealthChecks_def performHealthChecks_loop_RequestCount)
    show "handleMetricsEndpoint wlc =
        Metrics (unat (sum_list (map RequestCount (servers wlc)))) (length (servers wlc))
          (map backend_line (servers wlc))"
      using a by (simp add: handleMetricsEndpoint_def)
  next
    assume a: "totalRequests wlc = sum_list (map RequestCount (servers wlc))"
      and i: "i < length (servers wlc)"
    show "totalRequests (dispatch_begin i wlc)
           = sum_list (map RequestCount (servers (dispatch_begin i wlc)))"
      using a i by (simp add: dispatch_begin_sum)
    show "totalRequests (dispatch_end i wlc)
           = sum_list (map RequestCount (servers (dispatch_end i wlc)))"
      using a i by (simp add: dispatch_end_sum)
  qed
  show ?thesis by (intro conjI; fact)
qed

theorem totalRequests_sum_witness:
  "totalRequests (snd (ServeHTTP ''/api'' (\<lambda>u. Forwarded 200)
      \<lparr>servers =
         [\<lparr>URL = ''http://a'', Weight = 1, ActiveConnections = 0, RequestCount = 2,
           IsHealthy = True, FailureCount = 0, LastCheckTime = 0\<rparr>,
          \<lparr>URL = ''http://b'', Weight = 1, ActiveConnections = 0, RequestCount = 3,
           IsHealthy = True, FailureCount = 0, LastCheckTime = 0\<rparr>],
       totalRequests = 5\<rparr>)) =
   sum_list (map RequestCount (servers (snd (ServeHTTP ''/api'' (\<lambda>u. Forwarded 200)
      \<lparr>servers =
         [\<lparr>URL = ''http://a'', Weight = 1, ActiveConnections = 0, RequestCount = 2,
           IsHealthy = True, FailureCount = 0, LastCheckTime = 0\<rparr>,
          \<lparr>URL = ''http://b'', Weight = 1, ActiveConnections = 0, RequestCount = 3,
           IsHealthy = True, FailureCount = 0, LastCheckTime = 0\<rparr>],
       totalRequests = 5\<rparr>)))) \<and>
   totalRequests (snd (ServeHTTP ''/api'' (\<lambda>u. Forwarded 200)
      \<lparr>servers =
         [\<lparr>URL = ''http://a'', Weight = 1, ActiveConnections = 0, RequestCount = 2,
           IsHealthy = True, FailureCount = 0, LastCheckTime = 0\<rparr>,
          \<lparr>URL = ''http://b'', Weight = 1, ActiveConnections = 0, RequestCount = 3,
           IsHealthy = True, FailureCount = 0, LastCheckTime = 0\<rparr>],
       totalRequests = 5\<rparr>)) = 6"
proof -
  let ?a = "\<lparr>URL = ''http://a'', Weight = 1, ActiveConnections = 0, RequestCount = 2,
           IsHealthy = True, FailureCount = 0, LastCheckTime = 0\<rparr>"
  let ?b = "\<lparr>URL = ''http://b'', Weight = 1, ActiveConnections = 0, RequestCount = 3,
           IsHealthy = True, FailureCount = 0, LastCheckTime = 0\<rparr>"
  let ?p = "\<lparr>servers = [?a, ?b], totalRequests = 5\<rparr>"
  let ?q = "snd (ServeHTTP ''/api'' (\<lambda>u. Forwarded 200) ?p)"
  have a: "totalRequests ?p = sum_list (map RequestCount (servers ?p))" by simp
  have "totalRequests ?p = sum_list (map RequestCount (servers ?p)) \<longrightarrow>
          totalRequests ?q = sum_list (map RequestCount (servers ?q))"
    using totalRequests_sum [where wlc = ?p and path = "''/api''" and forward = "\<lambda>u. Forwarded 200"
        and srvs = "[]" and urlParse = "\<lambda>u. True" and now = 0 and rawURL = "''''" and weight = 0
        and server = ?a and clock = "\<lambda>k. 0" and input = "''''" and env = "\<lambda>k. (Status 200, 0)" and i = 0]
    by blast
  with a have 1: "totalRequests ?q = sum_list (map RequestCount (servers ?q))" by blast
  have n: "NextServer ?p = Some 0" by code_simp
  have 2: "totalRequests ?q = 6"
    by (simp add: ServeHTTP_def ServeHTTP_selected_def n dispatch_begin_def dispatch_end_def)
  show ?thesis using 1 2 by blast
qed

end
